theory Spec2Isabelle
  imports Complex_Main "HOL-Library.Word"
begin

section \<open>Errors\<close>

text \<open>
  The Python exceptions that the modelled functions can raise.  A function that can raise
  returns \<open>error + 'a\<close>, with \<open>Inl\<close> for the exception.
\<close>

datatype error =
    IndexError
  | KeyError
  | ValueError
  | TypeError
  | AttributeError
  | AssertionError
  | Cv2Error
  | S3UploadFailedError
  | SqsClientError
  | Timeout rat

section \<open>Queue consumption (\<open>am/ecs/__init__.py\<close>, \<open>consume_messages\<close>)\<close>

text \<open>
  A message of an SQS response: the dictionary entries \<open>'Body'\<close> and
  \<open>'ReceiptHandle'\<close> that the code reads.
\<close>

record message =
  Body :: string
  ReceiptHandle :: string

text \<open>
  The queue service is external.  It is a parameter of the model: a function that takes
  \<open>MaxNumberOfMessages\<close> and the state of the queue and returns the list under
  \<open>'Messages'\<close> of the response (empty when the key is absent) and the next state.
\<close>

type_synonym 'q receive_message = "nat \<Rightarrow> 'q \<Rightarrow> message list \<times> 'q"

text \<open>
  The local variables of \<open>consume_messages\<close>, the queue, and the lines written by
  \<open>logger.debug(f"Round: {i}, messages: {len(...)}")\<close>: one pair (round, number of
  messages of that round) per receive call.
\<close>

record 'q consume_state =
  queue :: 'q
  input_paths :: "string list"
  receipt_handles :: "string list"
  debug_log :: "(nat \<times> nat) list"

text \<open>The inner loop \<open>for message in resp.get('Messages', [])\<close>.\<close>

fun append_messages :: "message list \<Rightarrow> 'q consume_state \<Rightarrow> 'q consume_state" where
  "append_messages [] s = s"
| "append_messages (m # ms) s =
     append_messages ms
       (s\<lparr>input_paths := input_paths s @ [Body m],
          receipt_handles := receipt_handles s @ [ReceiptHandle m]\<rparr>)"

text \<open>The outer loop \<open>for i in range(n)\<close>, over the list of round numbers.\<close>

fun consume_loop :: "'q receive_message \<Rightarrow> nat list \<Rightarrow> 'q consume_state \<Rightarrow> 'q consume_state" where
  "consume_loop recv [] s = s"
| "consume_loop recv (i # rounds) s =
     (let resp = recv 1 (queue s);
          s1 = s\<lparr>queue := snd resp, debug_log := debug_log s @ [(i, length (fst resp))]\<rparr>
      in consume_loop recv rounds (append_messages (fst resp) s1))"

text \<open>
  \<open>consume_messages(queue_url, n=8)\<close>.  \<open>range(n)\<close> is empty for \<open>n \<le> 0\<close>.  The
  Python function returns the pair \<open>(input_paths, receipt_handles)\<close>; the model returns
  the whole final state, of which \<open>consume_result\<close> is that pair.
\<close>

definition consume_messages :: "'q receive_message \<Rightarrow> 'q \<Rightarrow> int \<Rightarrow> 'q consume_state" where
  "consume_messages recv q n =
     consume_loop recv [0..<nat n]
       \<lparr>queue = q, input_paths = [], receipt_handles = [], debug_log = []\<rparr>"

definition consume_result :: "'q consume_state \<Rightarrow> string list \<times> string list" where
  "consume_result s = (input_paths s, receipt_handles s)"

text \<open>
  The messages the backend delivers over the given rounds, in order of delivery: what the
  queue hands out, independently of what \<open>consume_messages\<close> does with it.
\<close>

fun delivered :: "'q receive_message \<Rightarrow> nat list \<Rightarrow> 'q \<Rightarrow> message list" where
  "delivered recv [] q = []"
| "delivered recv (i # rounds) q = fst (recv 1 q) @ delivered recv rounds (snd (recv 1 q))"

text \<open>
  An idealised queue for the scenarios: its state is the list of visible messages, and a
  receive call hands out (and hides) the first \<open>MaxNumberOfMessages\<close> of them.
\<close>

definition fifo_receive :: "message list receive_message" where
  "fifo_receive max_n q = (take max_n q, drop max_n q)"

text \<open>The number of rounds of the debug log that fetched nothing.\<close>

definition empty_rounds :: "(nat \<times> nat) list \<Rightarrow> nat" where
  "empty_rounds lg = length (filter (\<lambda>r. snd r = 0) lg)"

section \<open>Fleet launch and wait (\<open>am/ecs/__init__.py\<close>, \<open>run_wait_for_inference_task\<close>)\<close>

text \<open>
  The task configuration is a Python dictionary, passed by reference: the function's
  \<open>pop\<close> is visible to the caller, so the model returns the dictionary as it is left.
\<close>

datatype pyval = PInt int | PStr string

type_synonym task_config = "string \<rightharpoonup> pyval"

text \<open>
  The effects of the function, in the order in which they happen: a call of
  \<open>ecs.run_task\<close> with its \<open>count\<close>, a call of \<open>sleep\<close> with its duration, a call of
  \<open>ecs.describe_tasks\<close> with the task ids asked about and the statuses read from the
  response, and a call of \<open>stop_callback\<close>.
\<close>

datatype event =
    RunTask int
  | Sleep rat
  | DescribeTasks "string list" "string list"
  | StopCallback

text \<open>The world: what \<open>time()\<close> returns (in seconds), and the effects so far.\<close>

record world =
  clock :: rat
  trace :: "event list"

text \<open>
  The scheduler is external.  It is a parameter of the model: the task ids in the response
  of a \<open>run_task\<close> call, the statuses in the response of a \<open>describe_tasks\<close> call, and
  the time that one poll (the \<open>describe_tasks\<close> call and the callback) takes, each as a
  function of the world in which the call is made.
\<close>

record ecs_env =
  run_task_arns :: "world \<Rightarrow> int \<Rightarrow> string list"
  describe_statuses :: "world \<Rightarrow> string list \<Rightarrow> string list"
  poll_cost :: "world \<Rightarrow> rat"

text \<open>
  The stop callback is any Python callable.  The code calls it as \<open>stop_callback()\<close>:
  a callable of no argument answers from the world it is called in; a callable that
  requires one positional argument (a predicate on the statuses) cannot be called that way.
\<close>

datatype stop_callback = Nullary "world \<Rightarrow> bool" | Unary "string list \<Rightarrow> bool"

fun call_stop :: "stop_callback \<Rightarrow> world \<Rightarrow> error + bool" where
  "call_stop (Nullary f) w = Inr (f w)"
| "call_stop (Unary p) w = Inl TypeError"

text \<open>\<open>sleep(d)\<close>: raises \<open>ValueError\<close> for a negative duration, else the time passes.\<close>

definition advance :: "rat \<Rightarrow> world \<Rightarrow> world" where
  "advance d w = w\<lparr>clock := clock w + d, trace := trace w @ [Sleep d]\<rparr>"

definition sleep :: "rat \<Rightarrow> world \<Rightarrow> error + world" where
  "sleep d w = (if d < 0 then Inl ValueError else Inr (advance d w))"

text \<open>
  \<open>resp = ecs.describe_tasks(cluster='am-segm', tasks=task_arns)\<close> and
  \<open>task_statuses = [t['lastStatus'] for t in resp['tasks']]\<close>, which is only logged.
\<close>

definition describe_tasks :: "ecs_env \<Rightarrow> string list \<Rightarrow> world \<Rightarrow> world" where
  "describe_tasks env task_arns w =
     w\<lparr>trace := trace w @ [DescribeTasks task_arns (describe_statuses env w task_arns)]\<rparr>"

text \<open>The world once the callback has been called: the poll has taken its time.\<close>

definition after_callback :: "ecs_env \<Rightarrow> world \<Rightarrow> world" where
  "after_callback env w =
     w\<lparr>clock := clock w + poll_cost env w, trace := trace w @ [StopCallback]\<rparr>"

text \<open>
  The first loop, \<open>while task_n > 0\<close>, with \<open>ecs_max_task_n = 10\<close>.  \<open>sleep(5)\<close>
  cannot raise.
\<close>

function launch_tasks :: "ecs_env \<Rightarrow> int \<Rightarrow> string list \<Rightarrow> world \<Rightarrow> string list \<times> world" where
  "launch_tasks env task_n task_arns w =
     (if task_n > 0 then
        (let ecs_task_n = min task_n 10;
             w1 = w\<lparr>trace := trace w @ [RunTask ecs_task_n]\<rparr>;
             task_arns1 = task_arns @ run_task_arns env w ecs_task_n;
             task_n1 = task_n - ecs_task_n
         in launch_tasks env task_n1 task_arns1 (if task_n1 > 0 then advance 5 w1 else w1))
      else (task_arns, w))"
  by pat_completeness auto
termination
  by (relation "measure (\<lambda>(env, task_n, task_arns, w). nat task_n)") auto

text \<open>
  The second loop, \<open>while time() < finish: ... else: raise Exception('Timeout ...')\<close>.
  Nothing bounds the number of its rounds when no time passes, so it is a partial
  function: \<open>None\<close> is a run that never ends.
\<close>

partial_function (option) wait_loop ::
  "ecs_env \<Rightarrow> stop_callback \<Rightarrow> rat \<Rightarrow> rat \<Rightarrow> rat \<Rightarrow> string list \<Rightarrow> world \<Rightarrow> (world \<times> (error + unit)) option"
where
  "wait_loop env stop sleep_interval finish timeout task_arns w =
     (if clock w < finish then
        (case sleep sleep_interval w of
           Inl e \<Rightarrow> Some (w, Inl e)
         | Inr w1 \<Rightarrow>
            (let w2 = describe_tasks env task_arns w1
             in case call_stop stop w2 of
                  Inl e \<Rightarrow> Some (after_callback env w2, Inl e)
                | Inr b \<Rightarrow> if b then Some (after_callback env w2, Inr ())
                           else wait_loop env stop sleep_interval finish timeout task_arns
                                  (after_callback env w2)))
      else Some (w, Inl (Timeout timeout)))"

text \<open>
  What the caller sees: the world, its dictionary, and the exception or the normal return
  (the function returns \<open>None\<close>).
\<close>

record outcome =
  final_world :: world
  final_config :: task_config
  result :: "error + unit"

text \<open>
  \<open>run_wait_for_inference_task(task_config, stop_callback, sleep_interval=10, timeout=300)\<close>.
  \<open>task_config.pop('count')\<close> raises \<open>KeyError\<close> when the key is absent and otherwise
  removes the entry; the comparison of the \<open>assert\<close> raises \<open>TypeError\<close> on a string.
  The decorator \<open>time_it\<close> is not part of the model.
\<close>

definition run_wait_for_inference_task ::
  "ecs_env \<Rightarrow> task_config \<Rightarrow> stop_callback \<Rightarrow> rat \<Rightarrow> rat \<Rightarrow> world \<Rightarrow> outcome option"
where
  "run_wait_for_inference_task env task_config stop sleep_interval timeout w =
     (case task_config ''count'' of
        None \<Rightarrow> Some \<lparr>final_world = w, final_config = task_config, result = Inl KeyError\<rparr>
      | Some v \<Rightarrow>
         (let popped = task_config(''count'' := None) in
          case v of
            PStr s \<Rightarrow> Some \<lparr>final_world = w, final_config = popped, result = Inl TypeError\<rparr>
          | PInt task_n \<Rightarrow>
             if \<not> (0 < task_n \<and> task_n \<le> 20)
             then Some \<lparr>final_world = w, final_config = popped, result = Inl AssertionError\<rparr>
             else
               (let launched = launch_tasks env task_n [] w;
                    finish = clock (snd launched) + timeout
                in map_option
                     (\<lambda>r. \<lparr>final_world = fst r, final_config = popped, result = snd r\<rparr>)
                     (wait_loop env stop sleep_interval finish timeout
                        (fst launched) (snd launched)))))"

text \<open>
  One round of the wait loop that does not stop: the world when the callback is called,
  and the world after the round.
\<close>

definition at_callback :: "ecs_env \<Rightarrow> rat \<Rightarrow> string list \<Rightarrow> world \<Rightarrow> world" where
  "at_callback env d task_arns w = describe_tasks env task_arns (advance d w)"

definition poll_world :: "ecs_env \<Rightarrow> rat \<Rightarrow> string list \<Rightarrow> world \<Rightarrow> world" where
  "poll_world env d task_arns w = after_callback env (describe_tasks env task_arns (advance d w))"

text \<open>The number of polls in a trace, and the durations of its sleeps.\<close>

fun polls :: "event list \<Rightarrow> nat" where
  "polls [] = 0"
| "polls (DescribeTasks a s # es) = Suc (polls es)"
| "polls (e # es) = polls es"

fun sleeps :: "event list \<Rightarrow> rat list" where
  "sleeps [] = []"
| "sleeps (Sleep d # es) = d # sleeps es"
| "sleeps (e # es) = sleeps es"

text \<open>
  A scheduler for the scenarios: every launch returns as many task ids as asked for, every
  task is reported running, and a poll takes no time.
\<close>

definition demo_env :: ecs_env where
  "demo_env =
     \<lparr>run_task_arns = (\<lambda>w c. map (\<lambda>i. ''arn'') [0..<nat c]),
      describe_statuses = (\<lambda>w arns. map (\<lambda>a. ''RUNNING'') arns),
      poll_cost = (\<lambda>w. 0)\<rparr>"

definition start_world :: world where
  "start_world = \<lparr>clock = 0, trace = []\<rparr>"

section \<open>Uploading files (\<open>am/ecs/__init__.py\<close>, \<open>upload_images_to_s3\<close>)\<close>

text \<open>
  The calls that reach the object store and the queue: \<open>s3.upload_file(local_path,
  bucket, s3_path)\<close> that has returned, and \<open>sqs.send_message(QueueUrl, MessageBody)\<close>
  that has returned.
\<close>

datatype upload_event =
    S3Upload string string string
  | SqsSend string string

text \<open>
  The object store and the queue are external.  Whether \<open>upload_file\<close> returns for a
  pair (local path, key), and whether \<open>send_message\<close> returns for a pair (queue URL,
  body), are parameters; a call that does not return raises.
\<close>

record store_env =
  s3_accepts :: "string \<times> string \<Rightarrow> bool"
  sqs_accepts :: "string \<times> string \<Rightarrow> bool"

text \<open>
  The inner function \<open>upload(args)\<close>: the events of one call, in order, and how it ends.
  Nothing is caught: when \<open>upload_file\<close> raises the call ends there, and when
  \<open>send_message\<close> raises the file has been uploaded and no message is sent.
  \<open>if queue_url:\<close> is false for \<open>None\<close> and for the empty string.
\<close>

definition upload ::
  "store_env \<Rightarrow> string \<Rightarrow> string option \<Rightarrow> string \<times> string
     \<Rightarrow> upload_event list \<times> (error + unit)"
where
  "upload env bucket queue_url args =
     (let local_path = fst args; s3_path = snd args
      in if \<not> s3_accepts env args then ([], Inl S3UploadFailedError)
         else (case queue_url of
                 None \<Rightarrow> ([S3Upload local_path bucket s3_path], Inr ())
               | Some url \<Rightarrow>
                   if url = [] then ([S3Upload local_path bucket s3_path], Inr ())
                   else if \<not> sqs_accepts env (url, s3_path)
                   then ([S3Upload local_path bucket s3_path], Inl SqsClientError)
                   else ([S3Upload local_path bucket s3_path, SqsSend url s3_path], Inr ())))"

text \<open>
  The threads of the executor run their calls concurrently: a trace of the whole is any
  interleaving of the event lists of the threads, each in its own order.
\<close>

inductive interleaving :: "'a list list \<Rightarrow> 'a list \<Rightarrow> bool" where
  finished: "list_all (\<lambda>xs. xs = []) xss \<Longrightarrow> interleaving xss []"
| step: "i < length xss \<Longrightarrow> xss ! i = x # xs \<Longrightarrow> interleaving (xss[i := xs]) tr
         \<Longrightarrow> interleaving xss (x # tr)"

text \<open>
  The event lists of the calls \<open>upload(args)\<close> for \<open>args\<close> in
  \<open>zip(local_paths, s3_paths)\<close>, each event tagged with the position of its call; a call
  that the executor never started has no event.
\<close>

definition thread_events ::
  "store_env \<Rightarrow> string \<Rightarrow> string option \<Rightarrow> bool list \<Rightarrow> (string \<times> string) list
     \<Rightarrow> (nat \<times> upload_event) list list"
where
  "thread_events env bucket queue_url started tasks =
     map (\<lambda>i. if started ! i
               then map (Pair i) (fst (upload env bucket queue_url (tasks ! i)))
               else [])
       [0..<length tasks]"

text \<open>The first call, in the order of submission, that was started and raised.\<close>

definition first_failure ::
  "store_env \<Rightarrow> string \<Rightarrow> string option \<Rightarrow> bool list \<Rightarrow> (string \<times> string) list \<Rightarrow> nat option"
where
  "first_failure env bucket queue_url started tasks =
     find (\<lambda>i. started ! i \<and> isl (snd (upload env bucket queue_url (tasks ! i))))
       [0..<length tasks]"

text \<open>
  \<open>upload_images_to_s3(local_paths, bucket, s3_paths, queue_url=None)\<close>, as the relation
  between its arguments, a trace of events and its result.
  \<open>list(executor.map(upload, zip(local_paths, s3_paths)))\<close> submits every call and
  takes the results in the order of submission.  When no call raises, every call has
  run and the function returns.  Otherwise the exception of the first call that raised
  is raised to the caller; the calls before it have run, and of the calls after it those
  that were still pending are cancelled and never start.
\<close>

inductive upload_images_to_s3 ::
  "store_env \<Rightarrow> string list \<Rightarrow> string \<Rightarrow> string list \<Rightarrow> string option
     \<Rightarrow> (nat \<times> upload_event) list \<Rightarrow> error + unit \<Rightarrow> bool"
where
  run: "length started = length (zip local_paths s3_paths)
        \<Longrightarrow> (case first_failure env bucket queue_url started (zip local_paths s3_paths) of
               None \<Rightarrow> list_all id started
             | Some j \<Rightarrow> list_all id (take j started))
        \<Longrightarrow> interleaving
              (thread_events env bucket queue_url started (zip local_paths s3_paths)) tr
        \<Longrightarrow> upload_images_to_s3 env local_paths bucket s3_paths queue_url tr
              (case first_failure env bucket queue_url started (zip local_paths s3_paths) of
                 None \<Rightarrow> Inr ()
               | Some j \<Rightarrow> snd (upload env bucket queue_url (zip local_paths s3_paths ! j)))"

text \<open>The events of a trace that belong to the call at position \<open>i\<close>, in trace order.\<close>

definition events_of :: "nat \<Rightarrow> (nat \<times> upload_event) list \<Rightarrow> upload_event list" where
  "events_of i tr = map snd (filter (\<lambda>e. fst e = i) tr)"

section \<open>Stitching tiles (\<open>src/am/segment/preprocess.py\<close>)\<close>

text \<open>
  A two-dimensional numpy array is the list of its rows, all of one length.  The stitched
  image is created with \<open>dtype=np.uint8\<close>; the tiles are the greyscale images read from
  PNG files, of the same type.  The model covers the branch \<open>tiles[0].ndim == 2\<close>.
\<close>

type_synonym uint8 = "8 word"

type_synonym 'a array = "'a list list"

definition is_array :: "nat \<Rightarrow> nat \<Rightarrow> 'a array \<Rightarrow> bool" where
  "is_array h w a = (length a = h \<and> list_all (\<lambda>row. length row = w) a)"

text \<open>\<open>np.zeros((rows, cols), dtype=np.uint8)\<close>.\<close>

definition zeros :: "nat \<Rightarrow> nat \<Rightarrow> uint8 array" where
  "zeros rows cols = replicate rows (replicate cols 0)"

text \<open>
  numpy broadcasting of a two-dimensional value to the shape \<open>(ts, ts)\<close>: each axis of
  the value has length \<open>ts\<close> or 1, and an axis of length 1 is repeated.
\<close>

definition broadcastable :: "nat \<Rightarrow> 'a array \<Rightarrow> bool" where
  "broadcastable ts t =
     ((length t = ts \<or> length t = 1) \<and>
      (list_all (\<lambda>row. length row = ts) t \<or> list_all (\<lambda>row. length row = 1) t))"

definition broadcast_px :: "'a array \<Rightarrow> nat \<Rightarrow> nat \<Rightarrow> 'a" where
  "broadcast_px t y x =
     (let row = (if length t = 1 then t ! 0 else t ! y)
      in if length row = 1 then row ! 0 else row ! x)"

text \<open>
  \<open>image[i*ts:(i+1)*ts, j*ts:(j+1)*ts] = tile\<close>, for a slice that lies inside the image
  (as it does in \<open>stitch_tiles\<close>, whose image has \<open>ts * tile_row_n\<close> rows and
  \<open>ts * tile_col_n\<close> columns).  A value that cannot be broadcast raises \<open>ValueError\<close>.
\<close>

definition put_block :: "'a array \<Rightarrow> nat \<Rightarrow> nat \<Rightarrow> nat \<Rightarrow> 'a array \<Rightarrow> 'a array" where
  "put_block img i j ts tile =
     map (\<lambda>y. if i * ts \<le> y \<and> y < (i + 1) * ts
               then take (j * ts) (img ! y)
                    @ map (\<lambda>x. broadcast_px tile (y - i * ts) x) [0..<ts]
                    @ drop ((j + 1) * ts) (img ! y)
               else img ! y)
       [0..<length img]"

definition set_block :: "'a array \<Rightarrow> nat \<Rightarrow> nat \<Rightarrow> nat \<Rightarrow> 'a array \<Rightarrow> error + 'a array" where
  "set_block img i j ts tile =
     (if broadcastable ts tile then Inr (put_block img i j ts tile) else Inl ValueError)"

text \<open>The slice \<open>image[i*ts:(i+1)*ts, j*ts:(j+1)*ts]\<close>, read.\<close>

definition block :: "'a array \<Rightarrow> nat \<Rightarrow> nat \<Rightarrow> nat \<Rightarrow> 'a array" where
  "block img i j ts = map (\<lambda>row. take ts (drop (j * ts) row)) (take ts (drop (i * ts) img))"

text \<open>
  The two nested loops of \<open>stitch_tiles\<close>, \<open>for i in range(tile_row_n): for j in
  range(tile_col_n)\<close>, over the list of the pairs \<open>(i, j)\<close> in the order of the loops.
  \<open>tiles[i * tile_col_n + j]\<close> raises \<open>IndexError\<close> past the end of the list; an entry
  that is still \<open>None\<close> cannot be stored in the image (\<open>TypeError\<close>).
\<close>

fun place_tiles ::
  "uint8 array option list \<Rightarrow> nat \<Rightarrow> nat \<Rightarrow> (nat \<times> nat) list \<Rightarrow> uint8 array \<Rightarrow> error + uint8 array"
where
  "place_tiles tiles ts cn [] img = Inr img"
| "place_tiles tiles ts cn ((i, j) # ps) img =
     (if i * cn + j < length tiles then
        (case tiles ! (i * cn + j) of
           None \<Rightarrow> Inl TypeError
         | Some tile \<Rightarrow>
            (case set_block img i j ts tile of
               Inl e \<Rightarrow> Inl e
             | Inr img1 \<Rightarrow> place_tiles tiles ts cn ps img1))
      else Inl IndexError)"

text \<open>
  \<open>stitch_tiles(tiles, tile_size, tile_row_n, tile_col_n)\<close>.  \<open>tiles[0].ndim\<close> raises
  \<open>IndexError\<close> on an empty list and \<open>AttributeError\<close> on \<open>None\<close>.  The sizes are
  non-negative.
\<close>

definition stitch_tiles ::
  "uint8 array option list \<Rightarrow> nat \<Rightarrow> nat \<Rightarrow> nat \<Rightarrow> error + uint8 array"
where
  "stitch_tiles tiles tile_size tile_row_n tile_col_n =
     (case tiles of
        [] \<Rightarrow> Inl IndexError
      | None # rest \<Rightarrow> Inl AttributeError
      | Some first # rest \<Rightarrow>
          place_tiles tiles tile_size tile_col_n
            (List.product [0..<tile_row_n] [0..<tile_col_n])
            (zeros (tile_size * tile_row_n) (tile_size * tile_col_n)))"


section \<open>Stitching and cropping a tile directory (\<open>stitch_and_crop_tiles\<close>)\<close>

text \<open>
  \<open>int(path.stem)\<close> on a stem of ASCII characters: white space around the literal is
  dropped, then come an optional sign and decimal digits, where a single underscore may
  stand between two digits.  Any other stem raises \<open>ValueError\<close>.
\<close>

definition digit_of :: "char \<Rightarrow> nat option" where
  "digit_of c =
     (let n = (of_char c :: nat) in if 48 \<le> n \<and> n \<le> 57 then Some (n - 48) else None)"

definition is_space :: "char \<Rightarrow> bool" where
  "is_space c = (let n = (of_char c :: nat) in (9 \<le> n \<and> n \<le> 13) \<or> (28 \<le> n \<and> n \<le> 32))"

definition strip :: "string \<Rightarrow> string" where
  "strip s = rev (dropWhile is_space (rev (dropWhile is_space s)))"

fun digits_value :: "string \<Rightarrow> nat \<Rightarrow> nat option" where
  "digits_value [] acc = Some acc"
| "digits_value [c] acc = (case digit_of c of None \<Rightarrow> None | Some d \<Rightarrow> Some (10 * acc + d))"
| "digits_value (c # c1 # cs) acc =
     (if c = CHR ''_''
      then (case digit_of c1 of None \<Rightarrow> None | Some d \<Rightarrow> digits_value cs (10 * acc + d))
      else (case digit_of c of None \<Rightarrow> None | Some d \<Rightarrow> digits_value (c1 # cs) (10 * acc + d)))"

definition py_int :: "string \<Rightarrow> error + int" where
  "py_int s =
     (let t = strip s;
          neg = (t \<noteq> [] \<and> hd t = CHR ''-'');
          ds = (if t \<noteq> [] \<and> (hd t = CHR ''-'' \<or> hd t = CHR ''+'') then tl t else t)
      in case ds of
           [] \<Rightarrow> Inl ValueError
         | c # cs \<Rightarrow>
            (case digit_of c of
               None \<Rightarrow> Inl ValueError
             | Some d \<Rightarrow>
                (case digits_value cs d of
                   None \<Rightarrow> Inl ValueError
                 | Some n \<Rightarrow> Inr (if neg then - int n else int n))))"

text \<open>
  \<open>xs[i] = v\<close> on a Python list: a negative index counts from the end, and an index out
  of range raises \<open>IndexError\<close>.
\<close>

definition list_set :: "'a list \<Rightarrow> int \<Rightarrow> 'a \<Rightarrow> error + 'a list" where
  "list_set xs i v =
     (let n = int (length xs); k = (if i < 0 then i + n else i)
      in if 0 \<le> k \<and> k < n then Inr (xs[nat k := v]) else Inl IndexError)"

text \<open>
  \<open>cv2.resize(tile, (tile_size, tile_size), interpolation=cv2.INTER_NEAREST)\<close>, of the
  OpenCV library.  The pixels that the library computes are a parameter, \<open>resample\<close>;
  an empty source or an empty target size is an error of the library.
\<close>

definition cv2_resize :: "('a array \<Rightarrow> nat \<Rightarrow> 'a array) \<Rightarrow> 'a array \<Rightarrow> nat \<Rightarrow> error + 'a array" where
  "cv2_resize resample src ts =
     (if ts = 0 \<or> src = [] \<or> hd src = [] then Inl Cv2Error else Inr (resample src ts))"

text \<open>
  A tile file of the directory: the stem of its name, and the greyscale image read from
  it (by \<open>read_image(path)\<close> in \<open>am.segment.preprocess\<close>, by
  \<open>cv2.imread(str(path))[:,:,0]\<close> in \<open>am_segm.preprocess\<close>).
\<close>

record tile_file =
  stem :: string
  pixels :: "uint8 array"

text \<open>
  The loop \<open>for path in tile_paths\<close> that fills the list \<open>tiles\<close>, the same in both
  modules but for the value stored: \<open>tiles[i] = tile_of(path)\<close> with \<open>i = int(path.stem)\<close>.
\<close>

fun load_tiles ::
  "(tile_file \<Rightarrow> error + uint8 array) \<Rightarrow> tile_file list \<Rightarrow> uint8 array option list
     \<Rightarrow> error + uint8 array option list"
where
  "load_tiles tile_of [] tiles = Inr tiles"
| "load_tiles tile_of (f # fs) tiles =
     (case py_int (stem f) of
        Inl e \<Rightarrow> Inl e
      | Inr i \<Rightarrow>
         (case tile_of f of
            Inl e \<Rightarrow> Inl e
          | Inr tile \<Rightarrow>
             (case list_set tiles i (Some tile) of
                Inl e \<Rightarrow> Inl e
              | Inr tiles1 \<Rightarrow> load_tiles tile_of fs tiles1)))"

text \<open>
  \<open>CenterCrop(height, width).apply(img)\<close>, of the albumentations library, on an image
  of the given shape: \<open>ValueError\<close> when the crop is larger than the image, else the
  slice \<open>img[y1:y1 + height, x1:x1 + width]\<close> with \<open>y1 = (h - height) // 2\<close> and
  \<open>x1 = (w - width) // 2\<close>.
\<close>

definition center_crop :: "nat \<times> nat \<Rightarrow> nat \<Rightarrow> nat \<Rightarrow> 'a array \<Rightarrow> error + 'a array" where
  "center_crop shape height width img =
     (let h = fst shape; w = snd shape
      in if h < height \<or> w < width then Inl ValueError
         else Inr (map (\<lambda>row. take width (drop ((w - width) div 2) row))
                     (take height (drop ((h - height) div 2) img))))"

text \<open>
  The entries of \<open>meta.json\<close> that the function reads: \<open>meta['image']['h']\<close>,
  \<open>meta['image']['w']\<close>, \<open>meta['tile']['rows']\<close> and \<open>meta['tile']['cols']\<close>.
\<close>

record tile_meta =
  image_h :: nat
  image_w :: nat
  tile_rows :: nat
  tile_cols :: nat

text \<open>
  What the functions write about a mismatch, with the number of tile files found: the
  line of \<open>logger.warning\<close> in \<open>am.segment.preprocess\<close>, the line of \<open>print\<close> in
  \<open>am_segm.preprocess\<close>.
\<close>

datatype log_line = TileCountMismatch nat | PrintedTileCountMismatch nat

text \<open>
  \<open>stitch_and_crop_tiles(tiles_path, tile_size, meta)\<close> of
  \<open>src/am/segment/preprocess.py\<close>.  The directory is given as \<open>tile_paths\<close>, the sorted
  list of its PNG files.  The result is the log and the exception or the cropped image.
\<close>

definition stitch_and_crop_tiles ::
  "(uint8 array \<Rightarrow> nat \<Rightarrow> uint8 array) \<Rightarrow> tile_file list \<Rightarrow> nat \<Rightarrow> tile_meta
     \<Rightarrow> log_line list \<times> (error + uint8 array)"
where
  "stitch_and_crop_tiles resample tile_paths tile_size meta =
     (let warnings =
            (if length tile_paths \<noteq> tile_rows meta * tile_cols meta
             then [TileCountMismatch (length tile_paths)] else [])
      in (warnings,
          case load_tiles (\<lambda>f. cv2_resize resample (pixels f) tile_size) tile_paths
                 (replicate (length tile_paths) None) of
            Inl e \<Rightarrow> Inl e
          | Inr tiles \<Rightarrow>
             (case stitch_tiles tiles tile_size (tile_rows meta) (tile_cols meta) of
                Inl e \<Rightarrow> Inl e
              | Inr stitched \<Rightarrow>
                  center_crop (tile_size * tile_rows meta, tile_size * tile_cols meta)
                    (image_h meta) (image_w meta) stitched)))"

text \<open>
  \<open>stitch_and_crop_tiles(tiles_path, tile_size, meta)\<close> of \<open>am_segm/preprocess.py\<close>:
  it prints instead of logging, stores the tiles as read, without resizing, and calls
  \<open>stitch_tiles\<close> of \<open>am_segm.image_utils\<close>.  That function is not among the sources:
  it is a parameter, which gives the exception or the shape and the pixels of the image
  it returns.
\<close>

definition am_segm_stitch_and_crop_tiles ::
  "(uint8 array option list \<Rightarrow> nat \<Rightarrow> nat \<Rightarrow> nat \<Rightarrow> error + (nat \<times> nat) \<times> uint8 array)
     \<Rightarrow> tile_file list \<Rightarrow> nat \<Rightarrow> tile_meta \<Rightarrow> log_line list \<times> (error + uint8 array)"
where
  "am_segm_stitch_and_crop_tiles image_utils_stitch_tiles tile_paths tile_size meta =
     (let printed =
            (if length tile_paths \<noteq> tile_rows meta * tile_cols meta
             then [PrintedTileCountMismatch (length tile_paths)] else [])
      in (printed,
          case load_tiles (\<lambda>f. Inr (pixels f)) tile_paths
                 (replicate (length tile_paths) None) of
            Inl e \<Rightarrow> Inl e
          | Inr tiles \<Rightarrow>
             (case image_utils_stitch_tiles tiles tile_size (tile_rows meta) (tile_cols meta) of
                Inl e \<Rightarrow> Inl e
              | Inr stitched \<Rightarrow>
                  center_crop (fst stitched) (image_h meta) (image_w meta) (snd stitched))))"

section \<open>The metadata record (\<open>slice_to_tiles\<close>)\<close>

text \<open>
  The value handed to \<open>json.dump\<close>: nested dictionaries, in insertion order, with
  integers at the leaves.
\<close>

datatype json = JInt int | JObj "(string \<times> json) list"

fun member :: "json \<Rightarrow> string \<Rightarrow> json option" where
  "member (JObj entries) k = map_of entries k"
| "member (JInt n) k = None"

fun keys :: "json \<Rightarrow> string list" where
  "keys (JObj entries) = map fst entries"
| "keys (JInt n) = []"

text \<open>The schema of \<open>meta.json\<close>: an object holds an integer under a key.\<close>

definition int_member :: "json \<Rightarrow> string \<Rightarrow> bool" where
  "int_member j k = (case member j k of Some (JInt n) \<Rightarrow> True | Some (JObj es) \<Rightarrow> False | None \<Rightarrow> False)"

definition has_size :: "json \<Rightarrow> string \<Rightarrow> bool" where
  "has_size j k =
     (case member j k of None \<Rightarrow> False | Some v \<Rightarrow> int_member v ''h'' \<and> int_member v ''w'')"

definition has_tile :: "json \<Rightarrow> bool" where
  "has_tile j =
     (case member j ''tile'' of
        None \<Rightarrow> False
      | Some v \<Rightarrow> int_member v ''rows'' \<and> int_member v ''cols'' \<and> int_member v ''size'')"

definition conforms_meta_schema :: "json \<Rightarrow> bool" where
  "conforms_meta_schema j = (has_size j ''orig_image'' \<and> has_size j ''image'' \<and> has_tile j)"

text \<open>
  \<open>slice_to_tiles\<close> of \<open>src/am/segment/preprocess.py\<close>, up to the \<open>json.dump\<close>: the
  record written to \<open>meta.json\<close>, for a source image of the given height and width (read
  with three channels, so that \<open>max(image.shape)\<close> is the largest of height, width and
  3).  The shape that \<open>cv2.resize\<close> gives for a scale factor, and
  \<open>compute_tile_row_col_n\<close> of \<open>am.segment.image_utils\<close>, are parameters.
\<close>

definition slice_to_tiles_meta ::
  "(rat \<Rightarrow> nat \<times> nat \<Rightarrow> nat \<times> nat) \<Rightarrow> (nat \<times> nat \<Rightarrow> int \<Rightarrow> int \<times> int)
     \<Rightarrow> nat \<times> nat \<Rightarrow> int \<Rightarrow> json"
where
  "slice_to_tiles_meta resize_shape compute_tile_row_col_n shape tile_size =
     (let max_size = tile_size * 40;
          orig_h = fst shape; orig_w = snd shape;
          longest = max (max orig_h orig_w) 3;
          resized = (if int longest > max_size
                     then resize_shape (of_int max_size / of_nat longest) shape else shape);
          grid = compute_tile_row_col_n resized tile_size
      in JObj [(''orig_image'', JObj [(''h'', JInt (int orig_h)), (''w'', JInt (int orig_w))]),
               (''image'', JObj [(''h'', JInt (int (fst resized))),
                                 (''w'', JInt (int (snd resized)))]),
               (''tile'', JObj [(''rows'', JInt (fst grid)), (''cols'', JInt (snd grid)),
                                (''size'', JInt tile_size)])])"

text \<open>
  \<open>slice_to_tiles\<close> of \<open>am_segm/preprocess.py\<close>, for one image: \<open>tile_size = 512\<close>,
  \<open>max_size = tile_size * 15\<close>, a two-dimensional image, and a record of two entries.
\<close>

definition am_segm_slice_to_tiles_meta ::
  "(rat \<Rightarrow> nat \<times> nat \<Rightarrow> nat \<times> nat) \<Rightarrow> (nat \<times> nat \<Rightarrow> int \<Rightarrow> int \<times> int)
     \<Rightarrow> nat \<times> nat \<Rightarrow> json"
where
  "am_segm_slice_to_tiles_meta resize_shape compute_tile_row_col_n shape =
     (let tile_size = 512;
          max_size = tile_size * 15;
          longest = max (fst shape) (snd shape);
          resized = (if int longest > max_size
                     then resize_shape (of_int max_size / of_nat longest) shape else shape);
          grid = compute_tile_row_col_n resized tile_size
      in JObj [(''image'', JObj [(''h'', JInt (int (fst resized))),
                                 (''w'', JInt (int (snd resized)))]),
               (''tile'', JObj [(''rows'', JInt (fst grid)), (''cols'', JInt (snd grid)),
                                (''size'', JInt tile_size)])])"

text \<open>
  Modelled from the spec: \<open>compute_tile_row_col_n\<close> of \<open>am/segment/image_utils.py\<close>,
  which is not among the sources.  The spec's \<open>gridFor(h, w, tileSize)\<close> is the ceiling
  division on both axes.  It is used for the scenarios only.
\<close>

definition grid_for :: "nat \<times> nat \<Rightarrow> int \<Rightarrow> int \<times> int" where
  "grid_for shape tile_size =
     (- ((- int (fst shape)) div tile_size), - ((- int (snd shape)) div tile_size))"

text \<open>
  The shape of the result of \<open>cv2.resize(image, None, fx=factor, fy=factor)\<close>, of the
  OpenCV library: each side is scaled and rounded to the nearest integer, a half to the
  even one.  It is used for the scenarios only.
\<close>

definition round_half_even :: "rat \<Rightarrow> int" where
  "round_half_even r =
     (let f = \<lfloor>r\<rfloor>; d = r - of_int f
      in if d < 1 / 2 then f else if 1 / 2 < d then f + 1 else if even f then f else f + 1)"

definition scaled_shape :: "rat \<Rightarrow> nat \<times> nat \<Rightarrow> nat \<times> nat" where
  "scaled_shape factor shape =
     (nat (round_half_even (factor * of_nat (fst shape))),
      nat (round_half_even (factor * of_nat (snd shape))))"

section \<open>Queue consumption: proofs\<close>

lemma append_messages_fields:
  "input_paths (append_messages ms s) = input_paths s @ map Body ms"
  "receipt_handles (append_messages ms s) = receipt_handles s @ map ReceiptHandle ms"
  "queue (append_messages ms s) = queue s"
  "debug_log (append_messages ms s) = debug_log s"
  by (induction ms arbitrary: s) simp_all

lemma consume_loop_paths:
  "input_paths (consume_loop recv rounds s) =
     input_paths s @ map Body (delivered recv rounds (queue s))"
  by (induction rounds arbitrary: s) (simp_all add: Let_def append_messages_fields)

lemma consume_loop_handles:
  "receipt_handles (consume_loop recv rounds s) =
     receipt_handles s @ map ReceiptHandle (delivered recv rounds (queue s))"
  by (induction rounds arbitrary: s) (simp_all add: Let_def append_messages_fields)

lemma consume_loop_log_length:
  "length (debug_log (consume_loop recv rounds s)) = length (debug_log s) + length rounds"
  by (induction rounds arbitrary: s) (simp_all add: Let_def append_messages_fields)

lemma consume_loop_log_counts:
  "sum_list (map snd (debug_log (consume_loop recv rounds s))) =
     sum_list (map snd (debug_log s)) + length (delivered recv rounds (queue s))"
  by (induction rounds arbitrary: s) (simp_all add: Let_def append_messages_fields)

lemma consume_loop_log_bound:
  assumes "\<And>q. length (fst (recv 1 q)) \<le> 1"
    and "\<forall>r \<in> set (debug_log s). snd r \<le> 1"
  shows "\<forall>r \<in> set (debug_log (consume_loop recv rounds s)). snd r \<le> 1"
  using assms(2)
proof (induction rounds arbitrary: s)
  case Nil
  then show ?case by simp
next
  case (Cons i rounds)
  show ?case
    unfolding consume_loop.simps Let_def
    by (rule Cons.IH) (use Cons.prems assms(1) in \<open>auto simp: append_messages_fields\<close>)
qed

lemma delivered_length_bound:
  assumes "\<And>q. length (fst (recv 1 q)) \<le> 1"
  shows "length (delivered recv rounds q) \<le> length rounds"
proof (induction rounds arbitrary: q)
  case Nil
  then show ?case by simp
next
  case (Cons i rounds)
  have "length (fst (recv 1 q)) \<le> 1" by (rule assms)
  moreover have "length (delivered recv rounds (snd (recv 1 q))) \<le> length rounds"
    by (rule Cons.IH)
  ultimately show ?case by simp
qed

lemma fifo_receive_sel:
  "fst (fifo_receive m q) = take m q"
  "snd (fifo_receive m q) = drop m q"
  by (simp_all add: fifo_receive_def)

lemma fifo_delivered:
  "delivered fifo_receive rounds q = take (length rounds) q"
proof (induction rounds arbitrary: q)
  case Nil
  then show ?case by simp
next
  case (Cons i rounds)
  show ?case
    by (cases q) (simp_all add: fifo_receive_sel Cons.IH)
qed

lemma fifo_log:
  "debug_log (consume_loop fifo_receive rounds s) =
     debug_log s @ map (\<lambda>(k, i). (i, if k < length (queue s) then 1 else 0))
       (zip [0..<length rounds] rounds)"
proof (induction rounds arbitrary: s)
  case Nil
  then show ?case by simp
next
  case (Cons i rounds)
  have shift: "zip [0..<Suc (length rounds)] (i # rounds) =
      (0, i) # map (\<lambda>(k, j). (Suc k, j)) (zip [0..<length rounds] rounds)"
    by (simp add: upt_conv_Cons map_Suc_upt [symmetric] zip_map1 del: upt_Suc)
  show ?case
    by (cases "queue s")
      (simp_all add: Let_def Cons.IH append_messages_fields fifo_receive_sel shift
        case_prod_unfold comp_def del: upt_Suc)
qed

lemma upt_eight: "[0..<8] = [0, 1, 2, 3, 4, 5, 6, 7::nat]"
  by (simp add: upt_rec)

lemma fifo_three_of_eight_log:
  assumes "length msgs = 3"
  shows "debug_log (consume_messages fifo_receive msgs 8) =
     [(0, 1), (1, 1), (2, 1), (3, 0), (4, 0), (5, 0), (6, 0), (7, 0)]"
proof -
  have "debug_log (consume_messages fifo_receive msgs 8) =
    map (\<lambda>(k, i). (i, if k < 3 then 1 else 0)) (zip [0..<8] [0..<8])"
    by (simp add: consume_messages_def fifo_log assms del: upt.simps)
  also have "\<dots> = [(0, 1), (1, 1), (2, 1), (3, 0), (4, 0), (5, 0), (6, 0), (7, 0)]"
    unfolding upt_eight by simp
  finally show ?thesis .
qed

text \<open>
  C4.  \<open>consume_messages\<close> performs exactly \<open>n\<close> receive rounds (none for \<open>n \<le> 0\<close>),
  one after the other, each asking the backend for at most one message.  When the backend
  honours that limit, every round fetches at most one message, one path and one handle
  are returned per message fetched, and so at most \<open>n\<close> entries come back.  Against the
  idealised queue holding three messages, eight rounds return exactly these three
  messages and five rounds come back empty.
\<close>

theorem consume_messages_rounds:
  fixes recv :: "'q receive_message" and msgs :: "message list"
  assumes "\<And>q. length (fst (recv 1 q)) \<le> 1" and "length msgs = 3"
  shows "length (debug_log (consume_messages recv q n)) = nat n
       \<and> (\<forall>r \<in> set (debug_log (consume_messages recv q n)). snd r \<le> 1)
       \<and> length (input_paths (consume_messages recv q n)) =
           sum_list (map snd (debug_log (consume_messages recv q n)))
       \<and> length (receipt_handles (consume_messages recv q n)) =
           sum_list (map snd (debug_log (consume_messages recv q n)))
       \<and> length (input_paths (consume_messages recv q n)) \<le> nat n
       \<and> consume_result (consume_messages fifo_receive msgs 8) =
           (map Body msgs, map ReceiptHandle msgs)
       \<and> empty_rounds (debug_log (consume_messages fifo_receive msgs 8)) = 5"
proof (intro conjI)
  show "length (debug_log (consume_messages recv q n)) = nat n"
    by (simp add: consume_messages_def consume_loop_log_length)
  show "\<forall>r \<in> set (debug_log (consume_messages recv q n)). snd r \<le> 1"
    unfolding consume_messages_def
    by (rule consume_loop_log_bound) (rule assms(1), simp)
  show "length (input_paths (consume_messages recv q n)) =
      sum_list (map snd (debug_log (consume_messages recv q n)))"
    by (simp add: consume_messages_def consume_loop_paths consume_loop_log_counts)
  show "length (receipt_handles (consume_messages recv q n)) =
      sum_list (map snd (debug_log (consume_messages recv q n)))"
    by (simp add: consume_messages_def consume_loop_handles consume_loop_log_counts)
  show "length (input_paths (consume_messages recv q n)) \<le> nat n"
    using delivered_length_bound [of recv "[0..<nat n]" q, OF assms(1)]
    by (simp add: consume_messages_def consume_loop_paths)
  show "consume_result (consume_messages fifo_receive msgs 8) = (map Body msgs, map ReceiptHandle msgs)"
    using assms(2)
    by (simp add: consume_result_def consume_messages_def consume_loop_paths
        consume_loop_handles fifo_delivered)
  show "empty_rounds (debug_log (consume_messages fifo_receive msgs 8)) = 5"
    unfolding fifo_three_of_eight_log [OF assms(2)] by (simp add: empty_rounds_def)
qed

theorem consume_messages_rounds_witness:
  "consume_result
     (consume_messages fifo_receive
        [\<lparr>Body = ''g/source/0000.png'', ReceiptHandle = ''h0''\<rparr>,
         \<lparr>Body = ''g/source/0001.png'', ReceiptHandle = ''h1''\<rparr>,
         \<lparr>Body = ''g/source/0002.png'', ReceiptHandle = ''h2''\<rparr>] 8)
   = ([''g/source/0000.png'', ''g/source/0001.png'', ''g/source/0002.png''],
      [''h0'', ''h1'', ''h2''])
   \<and> empty_rounds
       (debug_log
          (consume_messages fifo_receive
             [\<lparr>Body = ''g/source/0000.png'', ReceiptHandle = ''h0''\<rparr>,
              \<lparr>Body = ''g/source/0001.png'', ReceiptHandle = ''h1''\<rparr>,
              \<lparr>Body = ''g/source/0002.png'', ReceiptHandle = ''h2''\<rparr>] 8)) = 5
   \<and> length
       (debug_log
          (consume_messages fifo_receive
             [\<lparr>Body = ''g/source/0000.png'', ReceiptHandle = ''h0''\<rparr>,
              \<lparr>Body = ''g/source/0001.png'', ReceiptHandle = ''h1''\<rparr>,
              \<lparr>Body = ''g/source/0002.png'', ReceiptHandle = ''h2''\<rparr>] 8)) = 8"
proof -
  let ?q = "[\<lparr>Body = ''g/source/0000.png'', ReceiptHandle = ''h0''\<rparr>,
             \<lparr>Body = ''g/source/0001.png'', ReceiptHandle = ''h1''\<rparr>,
             \<lparr>Body = ''g/source/0002.png'', ReceiptHandle = ''h2''\<rparr>]"
  have h1: "\<And>q. length (fst (fifo_receive 1 q)) \<le> 1"
    by (simp add: fifo_receive_sel)
  have h2: "length ?q = 3" by simp
  show ?thesis
    using consume_messages_rounds [where recv = fifo_receive and msgs = ?q and q = ?q and n = 8,
        OF h1 h2]
    by simp
qed

text \<open>
  C10.  The two sequences that \<open>consume_messages\<close> returns have the same length, and at
  every index the body and the receipt handle come from the same delivered message: the
  \<open>k\<close>-th message that the queue handed out.
\<close>

theorem consume_messages_aligned:
  "length (input_paths (consume_messages recv q n)) =
     length (receipt_handles (consume_messages recv q n))
   \<and> length (input_paths (consume_messages recv q n)) =
       length (delivered recv [0..<nat n] q)
   \<and> (\<forall>k < length (delivered recv [0..<nat n] q).
         input_paths (consume_messages recv q n) ! k = Body (delivered recv [0..<nat n] q ! k)
       \<and> receipt_handles (consume_messages recv q n) ! k =
           ReceiptHandle (delivered recv [0..<nat n] q ! k))"
  by (simp add: consume_messages_def consume_loop_paths consume_loop_handles)

theorem consume_messages_aligned_witness:
  "input_paths
     (consume_messages fifo_receive
        [\<lparr>Body = ''g/source/0000.png'', ReceiptHandle = ''h0''\<rparr>,
         \<lparr>Body = ''g/source/0001.png'', ReceiptHandle = ''h1''\<rparr>] 8) ! 1 = ''g/source/0001.png''
   \<and> receipt_handles
       (consume_messages fifo_receive
          [\<lparr>Body = ''g/source/0000.png'', ReceiptHandle = ''h0''\<rparr>,
           \<lparr>Body = ''g/source/0001.png'', ReceiptHandle = ''h1''\<rparr>] 8) ! 1 = ''h1''"
proof -
  let ?q = "[\<lparr>Body = ''g/source/0000.png'', ReceiptHandle = ''h0''\<rparr>,
             \<lparr>Body = ''g/source/0001.png'', ReceiptHandle = ''h1''\<rparr>]"
  have d: "delivered fifo_receive [0..<nat 8] ?q = ?q"
    by (simp add: fifo_delivered)
  have "1 < length (delivered fifo_receive [0..<nat 8] ?q)"
    unfolding d by simp
  with consume_messages_aligned [of fifo_receive ?q 8] show ?thesis
    unfolding d by auto
qed
section \<open>Fleet launch and wait: proofs\<close>

lemma launch_tasks_small:
  assumes "0 < n" "n \<le> 10"
  shows "launch_tasks env n acc w =
    (acc @ run_task_arns env w n, w\<lparr>trace := trace w @ [RunTask n]\<rparr>)"
  using assms by (simp add: Let_def)

lemma launch_tasks_large:
  assumes "10 < n" "n \<le> 20"
  shows "launch_tasks env n acc w =
    (let w1 = advance 5 (w\<lparr>trace := trace w @ [RunTask 10]\<rparr>)
     in (acc @ run_task_arns env w 10 @ run_task_arns env w1 (n - 10),
         w1\<lparr>trace := trace w1 @ [RunTask (n - 10)]\<rparr>))"
proof -
  have m: "min n 10 = 10" "0 < n" "0 < n - 10" "n - 10 \<le> 10"
    using assms by simp_all
  show ?thesis
    by (subst launch_tasks.simps)
      (simp add: Let_def m assms launch_tasks_small del: launch_tasks.simps)
qed


lemma wait_loop_continue:
  assumes "clock w < finish" "0 \<le> d" "\<not> f (at_callback env d arns w)"
  shows "wait_loop env (Nullary f) d finish T arns w =
         wait_loop env (Nullary f) d finish T arns (poll_world env d arns w)"
  using assms
  by (subst wait_loop.simps) (simp add: sleep_def Let_def at_callback_def poll_world_def)

lemma wait_loop_stop:
  assumes "clock w < finish" "0 \<le> d" "f (at_callback env d arns w)"
  shows "wait_loop env (Nullary f) d finish T arns w = Some (poll_world env d arns w, Inr ())"
  using assms
  by (subst wait_loop.simps) (simp add: sleep_def Let_def at_callback_def poll_world_def)

lemma wait_loop_first_true:
  assumes "0 \<le> d"
    and "\<forall>j<k. clock ((poll_world env d arns ^^ j) w) < finish
               \<and> \<not> f (at_callback env d arns ((poll_world env d arns ^^ j) w))"
    and "clock ((poll_world env d arns ^^ k) w) < finish"
    and "f (at_callback env d arns ((poll_world env d arns ^^ k) w))"
  shows "wait_loop env (Nullary f) d finish T arns w =
         Some ((poll_world env d arns ^^ Suc k) w, Inr ())"
  using assms(2-4)
proof (induction k arbitrary: w)
  case 0
  then show ?case using assms(1) by (simp add: wait_loop_stop)
next
  case (Suc k)
  let ?p = "poll_world env d arns"
  have here: "clock w < finish" "\<not> f (at_callback env d arns w)"
    using Suc.prems(1) by (auto dest: spec [of _ 0])
  have step: "wait_loop env (Nullary f) d finish T arns w =
              wait_loop env (Nullary f) d finish T arns (?p w)"
    using here(1) assms(1) here(2) by (rule wait_loop_continue)
  have shift: "(?p ^^ j) (?p w) = (?p ^^ Suc j) w" for j
    by (simp add: funpow_swap1)
  have "wait_loop env (Nullary f) d finish T arns (?p w) = Some ((?p ^^ Suc k) (?p w), Inr ())"
  proof (rule Suc.IH)
    show "\<forall>j<k. clock ((?p ^^ j) (?p w)) < finish \<and> \<not> f (at_callback env d arns ((?p ^^ j) (?p w)))"
      using Suc.prems(1) unfolding shift by auto
    show "clock ((?p ^^ k) (?p w)) < finish"
      using Suc.prems(2) unfolding shift .
    show "f (at_callback env d arns ((?p ^^ k) (?p w)))"
      using Suc.prems(3) unfolding shift .
  qed
  then show ?case
    unfolding step shift .
qed


lemma poll_world_trace:
  "trace (poll_world env d arns w) =
     trace w @ [Sleep d,
                DescribeTasks arns (describe_statuses env (advance d w) arns),
                StopCallback]"
  by (simp add: poll_world_def after_callback_def describe_tasks_def advance_def)

lemma polls_append: "polls (xs @ ys) = polls xs + polls ys"
  by (induction xs rule: polls.induct) simp_all



lemma funpow_poll_polls:
  "polls (trace ((poll_world env d arns ^^ k) w)) = polls (trace w) + k"
  by (induction k) (simp_all add: poll_world_trace polls_append)

lemma sleeps_append: "sleeps (xs @ ys) = sleeps xs @ sleeps ys"
  by (induction xs rule: sleeps.induct) simp_all

lemma funpow_poll_sleeps:
  "sleeps (trace ((poll_world env d arns ^^ k) w)) = sleeps (trace w) @ replicate k d"
  by (induction k) (simp_all add: poll_world_trace sleeps_append replicate_append_same)

text \<open>
  C3.  A count outside 1..20 is rejected by the assertion.  A count in 1..20 is launched
  in batches of at most 10 per \<open>run_task\<close> call: one batch up to 10, and two batches
  (10 and the rest) above, with one \<open>sleep(5)\<close> between the two and none after the
  last; the task ids of all the responses are accumulated, in order, and handed to the
  wait loop.  A count of 13 gives the batches 10 and 3 with one pause between them.
\<close>

theorem launch_in_batches:
  assumes "task_config ''count'' = Some (PInt n)"
  shows "(\<not> (0 < n \<and> n \<le> 20) \<longrightarrow>
            map_option result (run_wait_for_inference_task env task_config stop d T w)
              = Some (Inl AssertionError))
       \<and> (0 < n \<and> n \<le> 20 \<longrightarrow>
            run_wait_for_inference_task env task_config stop d T w =
              map_option
                (\<lambda>r. \<lparr>final_world = fst r, final_config = task_config(''count'' := None),
                       result = snd r\<rparr>)
                (wait_loop env stop d (clock (snd (launch_tasks env n [] w)) + T) T
                   (fst (launch_tasks env n [] w)) (snd (launch_tasks env n [] w))))
       \<and> (0 < n \<and> n \<le> 10 \<longrightarrow>
            launch_tasks env n [] w =
              (run_task_arns env w n, w\<lparr>trace := trace w @ [RunTask n]\<rparr>))
       \<and> (10 < n \<and> n \<le> 20 \<longrightarrow>
            launch_tasks env n [] w =
              (run_task_arns env w 10 @
                 run_task_arns env (advance 5 (w\<lparr>trace := trace w @ [RunTask 10]\<rparr>)) (n - 10),
               w\<lparr>clock := clock w + 5,
                  trace := trace w @ [RunTask 10, Sleep 5, RunTask (n - 10)]\<rparr>))
       \<and> trace (snd (launch_tasks env 13 [] w)) = trace w @ [RunTask 10, Sleep 5, RunTask 3]"
proof (intro conjI impI)
  assume "\<not> (0 < n \<and> n \<le> 20)"
  then show "map_option result (run_wait_for_inference_task env task_config stop d T w)
      = Some (Inl AssertionError)"
    using assms by (simp add: run_wait_for_inference_task_def)
next
  assume "0 < n \<and> n \<le> 20"
  then show "run_wait_for_inference_task env task_config stop d T w =
      map_option
        (\<lambda>r. \<lparr>final_world = fst r, final_config = task_config(''count'' := None),
               result = snd r\<rparr>)
        (wait_loop env stop d (clock (snd (launch_tasks env n [] w)) + T) T
           (fst (launch_tasks env n [] w)) (snd (launch_tasks env n [] w)))"
    using assms by (simp add: run_wait_for_inference_task_def Let_def del: launch_tasks.simps)
next
  assume "0 < n \<and> n \<le> 10"
  then show "launch_tasks env n [] w =
      (run_task_arns env w n, w\<lparr>trace := trace w @ [RunTask n]\<rparr>)"
    using launch_tasks_small [of n env "[]" w] by simp
next
  assume "10 < n \<and> n \<le> 20"
  then show "launch_tasks env n [] w =
      (run_task_arns env w 10 @
         run_task_arns env (advance 5 (w\<lparr>trace := trace w @ [RunTask 10]\<rparr>)) (n - 10),
       w\<lparr>clock := clock w + 5, trace := trace w @ [RunTask 10, Sleep 5, RunTask (n - 10)]\<rparr>)"
    using launch_tasks_large [of n env "[]" w] by (simp add: Let_def advance_def)
next
  show "trace (snd (launch_tasks env 13 [] w)) = trace w @ [RunTask 10, Sleep 5, RunTask 3]"
    using launch_tasks_large [of 13 env "[]" w] by (simp add: Let_def advance_def)
qed

theorem launch_in_batches_witness:
  "run_wait_for_inference_task demo_env [''count'' \<mapsto> PInt 13] (Nullary (\<lambda>w. True)) 10 300
      start_world =
     map_option
       (\<lambda>r. \<lparr>final_world = fst r, final_config = Map.empty, result = snd r\<rparr>)
       (wait_loop demo_env (Nullary (\<lambda>w. True)) 10
          (clock (snd (launch_tasks demo_env 13 [] start_world)) + 300) 300
          (fst (launch_tasks demo_env 13 [] start_world))
          (snd (launch_tasks demo_env 13 [] start_world)))
   \<and> launch_tasks demo_env 13 [] start_world =
       (replicate 13 ''arn'',
        \<lparr>clock = 5, trace = [RunTask 10, Sleep 5, RunTask 3]\<rparr>)"
proof -
  have h: "[''count'' \<mapsto> PInt 13] ''count'' = Some (PInt 13)" by simp
  have r: "map (\<lambda>i. ''arn'') [0..<10] @ map (\<lambda>i. ''arn'') [0..<3] = replicate 13 ''arn''"
    by (simp add: upt_rec numeral_eq_Suc)
  show ?thesis
    using launch_in_batches [where task_config = "[''count'' \<mapsto> PInt 13]" and n = 13
        and env = demo_env and stop = "Nullary (\<lambda>w. True)" and d = 10 and T = 300
        and w = start_world, OF h]
    by (simp add: demo_env_def start_world_def r del: launch_tasks.simps replicate.simps)
qed

text \<open>
  C8, as the code has it.  A count outside 1..20 raises \<open>AssertionError\<close> before any
  scheduler call, sleep or poll: the world is untouched.  The \<open>count\<close> entry has by then
  been popped from the caller's dictionary; its other entries are as they were.
\<close>

theorem out_of_range_count_pops_then_fails:
  assumes "task_config ''count'' = Some (PInt n)" and "\<not> (0 < n \<and> n \<le> 20)"
  shows "run_wait_for_inference_task env task_config stop d T w =
         Some \<lparr>final_world = w, final_config = task_config(''count'' := None),
               result = Inl AssertionError\<rparr>"
  using assms by (simp add: run_wait_for_inference_task_def)

theorem out_of_range_count_pops_then_fails_witness:
  "run_wait_for_inference_task demo_env [''count'' \<mapsto> PInt 21, ''cluster'' \<mapsto> PStr ''am-segm'']
       (Nullary (\<lambda>w. True)) 10 300 start_world =
     Some \<lparr>final_world = start_world, final_config = [''cluster'' \<mapsto> PStr ''am-segm''],
           result = Inl AssertionError\<rparr>"
proof -
  let ?cfg = "[''count'' \<mapsto> PInt 21, ''cluster'' \<mapsto> PStr ''am-segm'']"
  have h1: "?cfg ''count'' = Some (PInt 21)" by simp
  have h2: "\<not> (0 < (21::int) \<and> (21::int) \<le> 20)" by simp
  have c: "?cfg(''count'' := None) = [''cluster'' \<mapsto> PStr ''am-segm'']"
    by (rule ext) simp
  show ?thesis
    using out_of_range_count_pops_then_fails
      [where task_config = ?cfg and n = 21 and env = demo_env
        and stop = "Nullary (\<lambda>w. True)" and d = 10 and T = 300 and w = start_world,
        OF h1 h2]
    unfolding c .
qed

text \<open>
  The claim as stated fails: after the rejection of the count 21 the caller's dictionary
  no longer has the \<open>count\<close> entry it had.
\<close>

theorem out_of_range_count_config_changed:
  "map_option (\<lambda>r. (result r, final_config r ''count''))
     (run_wait_for_inference_task demo_env
        [''count'' \<mapsto> PInt 21, ''cluster'' \<mapsto> PStr ''am-segm'']
        (Nullary (\<lambda>w. True)) 10 300 start_world)
   = Some (Inl AssertionError, None)
   \<and> [''count'' \<mapsto> PInt 21, ''cluster'' \<mapsto> PStr ''am-segm''] ''count'' = Some (PInt 21)"
  by (simp add: run_wait_for_inference_task_def)

text \<open>
  C5, as the code has it.  The callback takes no argument; the polled statuses are logged
  and not handed to it.  Each round sleeps the poll interval, then polls the statuses,
  then calls the callback.  If the callback is false in the rounds \<open>0..k-1\<close> and true
  in round \<open>k\<close>, and each of these rounds starts before the deadline, the loop returns
  normally after round \<open>k\<close>: \<open>k + 1\<close> polls, each after one sleep.  When it is true in
  the first round, the loop returns after that one sleep and poll, with no further sleep.
\<close>

theorem wait_returns_at_first_true:
  assumes "0 \<le> d"
    and "\<forall>j<k. clock ((poll_world env d arns ^^ j) w) < finish
               \<and> \<not> f (at_callback env d arns ((poll_world env d arns ^^ j) w))"
    and "clock ((poll_world env d arns ^^ k) w) < finish"
    and "f (at_callback env d arns ((poll_world env d arns ^^ k) w))"
  shows "wait_loop env (Nullary f) d finish T arns w =
           Some ((poll_world env d arns ^^ Suc k) w, Inr ())
       \<and> polls (trace ((poll_world env d arns ^^ Suc k) w)) = polls (trace w) + Suc k
       \<and> sleeps (trace ((poll_world env d arns ^^ Suc k) w)) =
           sleeps (trace w) @ replicate (Suc k) d
       \<and> (k = 0 \<longrightarrow>
            trace ((poll_world env d arns ^^ Suc k) w) =
              trace w @ [Sleep d,
                         DescribeTasks arns (describe_statuses env (advance d w) arns),
                         StopCallback])"
proof (intro conjI impI)
  show "wait_loop env (Nullary f) d finish T arns w =
      Some ((poll_world env d arns ^^ Suc k) w, Inr ())"
    using assms by (rule wait_loop_first_true)
  show "polls (trace ((poll_world env d arns ^^ Suc k) w)) = polls (trace w) + Suc k"
    by (rule funpow_poll_polls)
  show "sleeps (trace ((poll_world env d arns ^^ Suc k) w)) =
      sleeps (trace w) @ replicate (Suc k) d"
    by (rule funpow_poll_sleeps)
next
  assume "k = 0"
  then show "trace ((poll_world env d arns ^^ Suc k) w) =
      trace w @ [Sleep d, DescribeTasks arns (describe_statuses env (advance d w) arns),
                 StopCallback]"
    by (simp add: poll_world_trace)
qed

theorem wait_returns_at_first_true_witness:
  "wait_loop demo_env (Nullary (\<lambda>w. 20 \<le> clock w)) 10 300 300 [''arn''] start_world =
     Some (\<lparr>clock = 20,
            trace = [Sleep 10, DescribeTasks [''arn''] [''RUNNING''], StopCallback,
                     Sleep 10, DescribeTasks [''arn''] [''RUNNING''], StopCallback]\<rparr>, Inr ())"
proof -
  let ?p = "poll_world demo_env 10 [''arn'']"
  have p: "?p w = \<lparr>clock = clock w + 10,
      trace = trace w @ [Sleep 10, DescribeTasks [''arn''] [''RUNNING''], StopCallback]\<rparr>" for w
    by (simp add: poll_world_def after_callback_def describe_tasks_def advance_def demo_env_def)
  have a: "at_callback demo_env 10 [''arn''] w =
      \<lparr>clock = clock w + 10, trace = trace w @ [Sleep 10, DescribeTasks [''arn''] [''RUNNING'']]\<rparr>"
    for w
    by (simp add: at_callback_def describe_tasks_def advance_def demo_env_def)
  have h1: "(0::rat) \<le> 10" by simp
  have h2: "\<forall>j<Suc 0. clock ((?p ^^ j) start_world) < 300
      \<and> \<not> (\<lambda>w. 20 \<le> clock w) (at_callback demo_env 10 [''arn''] ((?p ^^ j) start_world))"
    by (simp add: a start_world_def)
  have h3: "clock ((?p ^^ Suc 0) start_world) < 300"
    by (simp add: p start_world_def)
  have h4: "(\<lambda>w. 20 \<le> clock w) (at_callback demo_env 10 [''arn''] ((?p ^^ Suc 0) start_world))"
    by (simp add: p a start_world_def)
  show ?thesis
    using wait_returns_at_first_true [OF h1 h2 h3 h4, of 300]
    by (simp add: p start_world_def)
qed

text \<open>
  The claim as stated fails: a stop predicate on the polled statuses, even one that is
  true of every list of statuses, is called with no argument and raises \<open>TypeError\<close> in
  the first round instead of ending the wait.
\<close>

theorem unary_stop_predicate_raises:
  "map_option result
     (run_wait_for_inference_task demo_env [''count'' \<mapsto> PInt 1]
        (Unary (\<lambda>statuses. True)) 10 300 start_world)
   = Some (Inl TypeError)"
  by (simp add: run_wait_for_inference_task_def Let_def wait_loop.simps sleep_def
      describe_tasks_def advance_def start_world_def demo_env_def option.map_comp comp_def)





section \<open>Uploading files: proofs\<close>

lemma interleaving_projection:
  assumes "interleaving xss tr"
    and "\<forall>i<length xss. \<forall>e\<in>set (xss ! i). fst e = i"
  shows "(\<forall>i<length xss. filter (\<lambda>e. fst e = i) tr = xss ! i)
       \<and> (\<forall>e\<in>set tr. fst e < length xss)"
  using assms
proof (induction rule: interleaving.induct)
  case (finished xss)
  then show ?case by (simp add: list_all_length)
next
  case (step k xss x xs tr)
  have tag: "fst x = k"
    using step.prems step.hyps(1,2) by auto
  have tags: "\<forall>i<length (xss[k := xs]). \<forall>e\<in>set (xss[k := xs] ! i). fst e = i"
  proof (intro allI impI ballI)
    fix i e assume i: "i < length (xss[k := xs])" and e: "e \<in> set (xss[k := xs] ! i)"
    show "fst e = i"
    proof (cases "i = k")
      case True
      with e i have "e \<in> set (xss ! k)" using step.hyps(2) by simp
      with step.prems step.hyps(1) True show ?thesis by auto
    next
      case False
      with e i step.prems show ?thesis by auto
    qed
  qed
  from step.IH [OF tags] have ih:
    "\<forall>i<length xss. filter (\<lambda>e. fst e = i) tr = xss[k := xs] ! i"
    "\<forall>e\<in>set tr. fst e < length xss"
    by simp_all
  have "filter (\<lambda>e. fst e = i) (x # tr) = xss ! i" if "i < length xss" for i
  proof (cases "i = k")
    case True
    then show ?thesis using ih(1) that tag step.hyps(2) by simp
  next
    case False
    then show ?thesis using ih(1) that tag by simp
  qed
  moreover have "\<forall>e\<in>set (x # tr). fst e < length xss"
    using ih(2) tag step.hyps(1) by simp
  ultimately show ?case by blast
qed

lemma thread_events_tagged:
  "\<forall>i<length (thread_events env bucket queue_url started tasks).
     \<forall>e\<in>set (thread_events env bucket queue_url started tasks ! i). fst e = i"
  by (auto simp: thread_events_def)

lemma events_of_thread:
  assumes "interleaving (thread_events env bucket queue_url started tasks) tr"
    and "i < length tasks"
  shows "events_of i tr =
         (if started ! i then fst (upload env bucket queue_url (tasks ! i)) else [])"
proof -
  let ?xss = "thread_events env bucket queue_url started tasks"
  have len: "length ?xss = length tasks" by (simp add: thread_events_def)
  from interleaving_projection [OF assms(1) thread_events_tagged]
  have "filter (\<lambda>e. fst e = i) tr = ?xss ! i"
    using assms(2) len by simp
  then show ?thesis
    using assms(2) by (simp add: events_of_def thread_events_def comp_def)
qed

lemma interleaving_idle_first:
  "interleaving xss tr \<Longrightarrow> interleaving ([] # xss) tr"
proof (induction rule: interleaving.induct)
  case (finished xss)
  then show ?case by (intro interleaving.finished) simp
next
  case (step i xss x xs tr)
  show ?case
    using step.hyps(1,2) step.IH
    by (intro interleaving.step [of "Suc i" "[] # xss" x xs]) simp_all
qed

lemma interleaving_run_first:
  "interleaving ([] # xss) tr \<Longrightarrow> interleaving (ys # xss) (ys @ tr)"
proof (induction ys)
  case Nil
  then show ?case by simp
next
  case (Cons y ys)
  have "interleaving (((y # ys) # xss)[0 := ys]) (ys @ tr)"
    using Cons.IH [OF Cons.prems] by simp
  then have "interleaving ((y # ys) # xss) (y # ys @ tr)"
    by (rule interleaving.step [of 0 "(y # ys) # xss" y ys, rotated 2]) simp_all
  then show ?case by simp
qed

lemma interleaving_in_order: "interleaving xss (concat xss)"
proof (induction xss)
  case Nil
  show ?case by (simp add: interleaving.finished)
next
  case (Cons ys xss)
  then show ?case
    by (simp add: interleaving_run_first interleaving_idle_first)
qed

lemma first_failure_None:
  assumes "first_failure env bucket queue_url started tasks = None" and "i < length tasks"
    and "started ! i"
  shows "\<exists>u. snd (upload env bucket queue_url (tasks ! i)) = Inr u"
proof -
  have "\<not> isl (snd (upload env bucket queue_url (tasks ! i)))"
    using assms by (auto simp: first_failure_def find_None_iff)
  then show ?thesis
    by (cases "snd (upload env bucket queue_url (tasks ! i))") simp_all
qed

lemma first_failure_Some:
  assumes "first_failure env bucket queue_url started tasks = Some j"
  shows "\<exists>e. snd (upload env bucket queue_url (tasks ! j)) = Inl e"
proof -
  have "isl (snd (upload env bucket queue_url (tasks ! j)))"
    using assms by (auto simp: first_failure_def find_Some_iff)
  then show ?thesis
    by (cases "snd (upload env bucket queue_url (tasks ! j))") simp_all
qed

lemma upload_events_cases:
  assumes "url \<noteq> []"
  shows "fst (upload env bucket (Some url) (lp, key)) =
           (if \<not> s3_accepts env (lp, key) then []
            else if \<not> sqs_accepts env (url, key) then [S3Upload lp bucket key]
            else [S3Upload lp bucket key, SqsSend url key])"
    and "snd (upload env bucket (Some url) (lp, key)) =
           (if \<not> s3_accepts env (lp, key) then Inl S3UploadFailedError
            else if \<not> sqs_accepts env (url, key) then Inl SqsClientError
            else Inr ())"
  using assms by (simp_all add: upload_def Let_def)

text \<open>
  C9, as the code has it.  With a queue configured, in every run of
  \<open>upload_images_to_s3\<close> every event belongs to one of the calls, and the events of
  each call are none (the file was not uploaded), or the upload of its file alone, or
  the upload followed by one message whose body is the object-store key of that file:
  at most one message per uploaded file, sent after the upload call of that file has
  returned.  The upload stands alone only when the send for that file raised.  When the
  function returns normally, every file has been uploaded and has exactly one message.
  Every input has a run.
\<close>

theorem one_message_per_uploaded_file:
  assumes "upload_images_to_s3 env local_paths bucket s3_paths (Some url) tr res"
    and "url \<noteq> []"
  shows "(\<forall>e\<in>set tr. fst e < length (zip local_paths s3_paths))
       \<and> (\<forall>i<length (zip local_paths s3_paths).
             events_of i tr = []
           \<or> events_of i tr = [S3Upload (local_paths ! i) bucket (s3_paths ! i)]
           \<or> events_of i tr =
               [S3Upload (local_paths ! i) bucket (s3_paths ! i), SqsSend url (s3_paths ! i)])
       \<and> (\<forall>i<length (zip local_paths s3_paths).
             events_of i tr = [S3Upload (local_paths ! i) bucket (s3_paths ! i)]
             \<longrightarrow> \<not> sqs_accepts env (url, s3_paths ! i) \<and> res \<noteq> Inr ())
       \<and> (res = Inr () \<longrightarrow>
            (\<forall>i<length (zip local_paths s3_paths).
               events_of i tr =
                 [S3Upload (local_paths ! i) bucket (s3_paths ! i), SqsSend url (s3_paths ! i)]))
       \<and> (\<exists>tr1 res1. upload_images_to_s3 env local_paths bucket s3_paths (Some url) tr1 res1)"
  using assms(1)
proof (cases rule: upload_images_to_s3.cases)
  case (run started)
  let ?tasks = "zip local_paths s3_paths"
  let ?xss = "thread_events env bucket (Some url) started ?tasks"
  let ?ff = "first_failure env bucket (Some url) started ?tasks"
  let ?up = "\<lambda>i. S3Upload (local_paths ! i) bucket (s3_paths ! i)"
  let ?send = "\<lambda>i. SqsSend url (s3_paths ! i)"
  have len: "length ?xss = length ?tasks" by (simp add: thread_events_def)
  have "\<forall>e\<in>set tr. fst e < length ?xss"
    using interleaving_projection [OF run(4) thread_events_tagged] by simp
  then have first: "\<forall>e\<in>set tr. fst e < length ?tasks"
    unfolding len .
  have task: "?tasks ! i = (local_paths ! i, s3_paths ! i)" if "i < length ?tasks" for i
    using that by simp
  have ev: "events_of i tr =
      (if \<not> started ! i \<or> \<not> s3_accepts env (local_paths ! i, s3_paths ! i) then []
       else if \<not> sqs_accepts env (url, s3_paths ! i) then [?up i]
       else [?up i, ?send i])"
    if i: "i < length ?tasks" for i
  proof -
    have "events_of i tr =
        (if started ! i then fst (upload env bucket (Some url) (?tasks ! i)) else [])"
      using run(4) i by (rule events_of_thread)
    then show ?thesis
      unfolding task [OF i] upload_events_cases(1) [OF assms(2)] by simp
  qed
  have second: "\<forall>i<length ?tasks.
      events_of i tr = [] \<or> events_of i tr = [?up i] \<or> events_of i tr = [?up i, ?send i]"
    using ev by simp
  have ok: "res = Inr () \<Longrightarrow> ?ff = None"
  proof (cases ?ff)
    case None
    then show ?thesis by simp
  next
    case (Some j)
    assume "res = Inr ()"
    moreover from first_failure_Some [OF Some] obtain e where
      "snd (upload env bucket (Some url) (?tasks ! j)) = Inl e" by blast
    ultimately show ?thesis using run(1) Some by simp
  qed
  have all_sent: "events_of i tr = [?up i, ?send i]"
    if r: "res = Inr ()" and i: "i < length ?tasks" for i
  proof -
    have none: "?ff = None" using r by (rule ok)
    then have "list_all id started" using run(3) by simp
    then have st: "started ! i" using i run(2) by (simp add: list_all_length)
    from first_failure_None [OF none i st] obtain u where
      "snd (upload env bucket (Some url) (?tasks ! i)) = Inr u" by blast
    then have "s3_accepts env (local_paths ! i, s3_paths ! i)
        \<and> sqs_accepts env (url, s3_paths ! i)"
      unfolding task [OF i] upload_events_cases(2) [OF assms(2)]
      by (simp split: if_splits)
    with st show ?thesis using ev [OF i] by simp
  qed
  have alone: "\<not> sqs_accepts env (url, s3_paths ! i) \<and> res \<noteq> Inr ()"
    if i: "i < length ?tasks" and e: "events_of i tr = [?up i]" for i
  proof -
    have a: "\<not> sqs_accepts env (url, s3_paths ! i)"
      using ev [OF i] e by (simp split: if_splits)
    have "res \<noteq> Inr ()"
    proof
      assume "res = Inr ()"
      from all_sent [OF this i] e show False by simp
    qed
    with a show ?thesis by simp
  qed
  have exists: "\<exists>tr1 res1. upload_images_to_s3 env local_paths bucket s3_paths (Some url) tr1 res1"
  proof -
    let ?all = "replicate (length ?tasks) True"
    have "upload_images_to_s3 env local_paths bucket s3_paths (Some url)
        (concat (thread_events env bucket (Some url) ?all ?tasks))
        (case first_failure env bucket (Some url) ?all ?tasks of
           None \<Rightarrow> Inr ()
         | Some j \<Rightarrow> snd (upload env bucket (Some url) (?tasks ! j)))"
    proof (rule upload_images_to_s3.run)
      show "length ?all = length ?tasks" by simp
      show "case first_failure env bucket (Some url) ?all ?tasks of
          None \<Rightarrow> list_all id ?all | Some j \<Rightarrow> list_all id (take j ?all)"
        by (simp add: list_all_length split: option.split)
      show "interleaving (thread_events env bucket (Some url) ?all ?tasks)
          (concat (thread_events env bucket (Some url) ?all ?tasks))"
        by (rule interleaving_in_order)
    qed
    then show ?thesis by blast
  qed
  from first second alone all_sent exists show ?thesis by blast
qed

theorem one_message_per_uploaded_file_witness:
  "events_of 0
     [(0, S3Upload ''t/0000.png'' ''bkt'' ''g/source/0000.png''),
      (1, S3Upload ''t/0001.png'' ''bkt'' ''g/source/0001.png''),
      (1, SqsSend ''queue'' ''g/source/0001.png''),
      (0, SqsSend ''queue'' ''g/source/0000.png'')]
   = [S3Upload ''t/0000.png'' ''bkt'' ''g/source/0000.png'',
      SqsSend ''queue'' ''g/source/0000.png'']
   \<and> upload_images_to_s3 \<lparr>s3_accepts = (\<lambda>file. True), sqs_accepts = (\<lambda>msg. True)\<rparr>
       [''t/0000.png'', ''t/0001.png''] ''bkt''
       [''g/source/0000.png'', ''g/source/0001.png''] (Some ''queue'')
       [(0, S3Upload ''t/0000.png'' ''bkt'' ''g/source/0000.png''),
        (1, S3Upload ''t/0001.png'' ''bkt'' ''g/source/0001.png''),
        (1, SqsSend ''queue'' ''g/source/0001.png''),
        (0, SqsSend ''queue'' ''g/source/0000.png'')]
       (Inr ())"
proof -
  let ?env = "\<lparr>s3_accepts = (\<lambda>file. True), sqs_accepts = (\<lambda>msg. True)\<rparr>"
  let ?lp = "[''t/0000.png'', ''t/0001.png'']"
  let ?sp = "[''g/source/0000.png'', ''g/source/0001.png'']"
  let ?u0 = "(0::nat, S3Upload ''t/0000.png'' ''bkt'' ''g/source/0000.png'')"
  let ?u1 = "(1::nat, S3Upload ''t/0001.png'' ''bkt'' ''g/source/0001.png'')"
  let ?s0 = "(0::nat, SqsSend ''queue'' ''g/source/0000.png'')"
  let ?s1 = "(1::nat, SqsSend ''queue'' ''g/source/0001.png'')"
  let ?tr = "[?u0, ?u1, ?s1, ?s0]"
  have ev: "thread_events ?env ''bkt'' (Some ''queue'') [True, True] (zip ?lp ?sp)
      = [[?u0, ?s0], [?u1, ?s1]]"
    by (simp add: thread_events_def upload_def Let_def upt_rec numeral_2_eq_2)
  have i4: "interleaving [[], []] ([] :: (nat \<times> upload_event) list)"
    by (rule interleaving.finished) simp
  have i3: "interleaving [[?s0], []] [?s0]"
    using interleaving.step [of 0 "[[?s0], []]" ?s0 "[]" "[]"] i4 by simp
  have i2: "interleaving [[?s0], [?s1]] [?s1, ?s0]"
    using interleaving.step [of 1 "[[?s0], [?s1]]" ?s1 "[]" "[?s0]"] i3 by simp
  have i1: "interleaving [[?s0], [?u1, ?s1]] [?u1, ?s1, ?s0]"
    using interleaving.step [of 1 "[[?s0], [?u1, ?s1]]" ?u1 "[?s1]" "[?s1, ?s0]"] i2 by simp
  have i0: "interleaving [[?u0, ?s0], [?u1, ?s1]] ?tr"
    using interleaving.step [of 0 "[[?u0, ?s0], [?u1, ?s1]]" ?u0 "[?s0]" "[?u1, ?s1, ?s0]"] i1
    by simp
  have nf: "first_failure ?env ''bkt'' (Some ''queue'') [True, True] (zip ?lp ?sp) = None"
    by (simp add: first_failure_def upload_def Let_def upt_rec numeral_2_eq_2)
  have "upload_images_to_s3 ?env ?lp ''bkt'' ?sp (Some ''queue'') ?tr
      (case first_failure ?env ''bkt'' (Some ''queue'') [True, True] (zip ?lp ?sp) of
         None \<Rightarrow> Inr ()
       | Some j \<Rightarrow> snd (upload ?env ''bkt'' (Some ''queue'') (zip ?lp ?sp ! j)))"
  proof (rule upload_images_to_s3.run [where started = "[True, True]"])
    show "length [True, True] = length (zip ?lp ?sp)" by simp
    show "case first_failure ?env ''bkt'' (Some ''queue'') [True, True] (zip ?lp ?sp) of
        None \<Rightarrow> list_all id [True, True] | Some j \<Rightarrow> list_all id (take j [True, True])"
      unfolding nf by simp
    show "interleaving
        (thread_events ?env ''bkt'' (Some ''queue'') [True, True] (zip ?lp ?sp)) ?tr"
      unfolding ev by (rule i0)
  qed
  then have r: "upload_images_to_s3 ?env ?lp ''bkt'' ?sp (Some ''queue'') ?tr (Inr ())"
    unfolding nf by simp
  have q: "''queue'' \<noteq> []" by simp
  from one_message_per_uploaded_file [OF r q] have
    "\<forall>i<length (zip ?lp ?sp). events_of i ?tr =
        [S3Upload (?lp ! i) ''bkt'' (?sp ! i), SqsSend ''queue'' (?sp ! i)]"
    by blast
  then have "events_of 0 ?tr =
      [S3Upload (?lp ! 0) ''bkt'' (?sp ! 0), SqsSend ''queue'' (?sp ! 0)]"
    by simp
  with r show ?thesis by simp
qed

text \<open>
  The claim as stated fails: when the send for a file raises, the file has been uploaded
  and no message is sent for it.  Here the run of one file whose upload returns and whose
  send raises: its only event is the upload, and the exception reaches the caller.
\<close>

theorem uploaded_file_without_message:
  "upload_images_to_s3 \<lparr>s3_accepts = (\<lambda>file. True), sqs_accepts = (\<lambda>msg. False)\<rparr>
     [''t/0000.png''] ''bkt'' [''g/source/0000.png''] (Some ''queue'')
     [(0, S3Upload ''t/0000.png'' ''bkt'' ''g/source/0000.png'')]
     (Inl SqsClientError)
   \<and> events_of 0 [(0, S3Upload ''t/0000.png'' ''bkt'' ''g/source/0000.png'')]
       = [S3Upload ''t/0000.png'' ''bkt'' ''g/source/0000.png'']"
proof -
  let ?env = "\<lparr>s3_accepts = (\<lambda>file. True), sqs_accepts = (\<lambda>msg. False)\<rparr>"
  let ?lp = "[''t/0000.png'']"
  let ?sp = "[''g/source/0000.png'']"
  let ?u0 = "(0::nat, S3Upload ''t/0000.png'' ''bkt'' ''g/source/0000.png'')"
  have ev: "thread_events ?env ''bkt'' (Some ''queue'') [True] (zip ?lp ?sp) = [[?u0]]"
    by (simp add: thread_events_def upload_def Let_def)
  have ff: "first_failure ?env ''bkt'' (Some ''queue'') [True] (zip ?lp ?sp) = Some 0"
    by (simp add: first_failure_def upload_def Let_def)
  have i1: "interleaving [[]] ([] :: (nat \<times> upload_event) list)"
    by (rule interleaving.finished) simp
  have i0: "interleaving [[?u0]] [?u0]"
    using interleaving.step [of 0 "[[?u0]]" ?u0 "[]" "[]"] i1 by simp
  have "upload_images_to_s3 ?env ?lp ''bkt'' ?sp (Some ''queue'') [?u0]
      (case first_failure ?env ''bkt'' (Some ''queue'') [True] (zip ?lp ?sp) of
         None \<Rightarrow> Inr ()
       | Some j \<Rightarrow> snd (upload ?env ''bkt'' (Some ''queue'') (zip ?lp ?sp ! j)))"
  proof (rule upload_images_to_s3.run [where started = "[True]"])
    show "length [True] = length (zip ?lp ?sp)" by simp
    show "case first_failure ?env ''bkt'' (Some ''queue'') [True] (zip ?lp ?sp) of
        None \<Rightarrow> list_all id [True] | Some j \<Rightarrow> list_all id (take j [True])"
      unfolding ff by simp
    show "interleaving (thread_events ?env ''bkt'' (Some ''queue'') [True] (zip ?lp ?sp)) [?u0]"
      unfolding ev by (rule i0)
  qed
  then have "upload_images_to_s3 ?env ?lp ''bkt'' ?sp (Some ''queue'') [?u0]
      (Inl SqsClientError)"
    unfolding ff by (simp add: upload_def Let_def)
  then show ?thesis by (simp add: events_of_def)
qed


section \<open>Stitching tiles: proofs\<close>

lemma is_array_nth:
  "is_array h w a \<Longrightarrow> y < h \<Longrightarrow> length (a ! y) = w"
  by (simp add: is_array_def list_all_length)

lemma is_arrayI:
  "length a = h \<Longrightarrow> (\<And>y. y < h \<Longrightarrow> length (a ! y) = w) \<Longrightarrow> is_array h w a"
  by (simp add: is_array_def list_all_length)

lemma is_array_length: "is_array h w a \<Longrightarrow> length a = h"
  by (simp add: is_array_def)

lemma array_eqI:
  assumes "is_array h w a" and "is_array h w b"
    and "\<And>y x. y < h \<Longrightarrow> x < w \<Longrightarrow> a ! y ! x = b ! y ! x"
  shows "a = b"
proof (rule nth_equalityI)
  show "length a = length b"
    using assms(1,2) by (simp add: is_array_def)
  fix y assume "y < length a"
  then have y: "y < h" using assms(1) by (simp add: is_array_def)
  show "a ! y = b ! y"
  proof (rule nth_equalityI)
    show "length (a ! y) = length (b ! y)"
      using assms(1,2) y by (simp add: is_array_nth)
    fix x assume "x < length (a ! y)"
    then have "x < w" using assms(1) y by (simp add: is_array_nth)
    with y show "a ! y ! x = b ! y ! x" by (rule assms(3))
  qed
qed

lemma is_array_zeros: "is_array rows cols (zeros rows cols)"
  by (simp add: is_array_def zeros_def list_all_length)

lemma broadcastable_full: "is_array ts ts tile \<Longrightarrow> broadcastable ts tile"
  by (simp add: is_array_def broadcastable_def)

lemma broadcast_px_full:
  assumes "is_array ts ts tile" and "y < ts" and "x < ts"
  shows "broadcast_px tile y x = tile ! y ! x"
proof -
  have len: "length tile = ts" and row: "length (tile ! y) = ts"
    using assms(1,2) by (simp_all add: is_array_def list_all_length)
  show ?thesis
  proof (cases "ts = 1")
    case True
    with assms(2,3) have "y = 0" "x = 0" by simp_all
    then show ?thesis by (simp add: broadcast_px_def Let_def)
  next
    case False
    then show ?thesis using len row by (simp add: broadcast_px_def Let_def)
  qed
qed

lemma block_index:
  fixes ts y h i :: nat
  assumes "0 < ts" and "y < h"
  shows "(i * ts \<le> y \<and> y < (i + 1) * ts) = (y div ts = i)"
proof
  assume "i * ts \<le> y \<and> y < (i + 1) * ts"
  then have "ts * i \<le> y" "y < ts * Suc i"
    by (simp_all add: mult.commute)
  then show "y div ts = i" by (rule div_nat_eqI)
next
  assume "y div ts = i"
  then have "i * ts \<le> y" "y < (i + 1) * ts"
    using assms(1) div_times_less_eq_dividend [of y ts] dividend_less_div_times [of ts y]
    by (auto simp: algebra_simps)
  then show "i * ts \<le> y \<and> y < (i + 1) * ts" by simp
qed

lemma is_array_put_block:
  assumes "is_array h w img" and "(j + 1) * ts \<le> w"
  shows "is_array h w (put_block img i j ts tile)"
proof (rule is_arrayI)
  show "length (put_block img i j ts tile) = h"
    using assms(1) by (simp add: put_block_def is_array_def)
  fix y assume y: "y < h"
  then have "length (img ! y) = w" using assms(1) by (rule is_array_nth [rotated])
  with y assms show "length (put_block img i j ts tile ! y) = w"
    by (simp add: put_block_def is_array_length)
qed

lemma put_block_nth:
  assumes "is_array h w img" and "(j + 1) * ts \<le> w" and "is_array ts ts tile"
    and "0 < ts" and "y < h" and "x < w"
  shows "put_block img i j ts tile ! y ! x =
         (if y div ts = i \<and> x div ts = j then tile ! (y mod ts) ! (x mod ts) else img ! y ! x)"
proof -
  have row: "length (img ! y) = w" using assms(1,5) by (rule is_array_nth)
  have len: "length img = h" using assms(1) by (rule is_array_length)
  show ?thesis
  proof (cases "y div ts = i")
    case False
    then have "\<not> (i * ts \<le> y \<and> y < (i + 1) * ts)"
      using block_index [OF assms(4,5)] by simp
    with False assms(5) len show ?thesis
      by (auto simp: put_block_def)
  next
    case yi: True
    then have rng: "i * ts \<le> y \<and> y < (i + 1) * ts"
      using block_index [OF assms(4,5)] by simp
    have ym: "y - i * ts = y mod ts"
      using yi by (metis minus_div_mult_eq_mod)
    have r: "put_block img i j ts tile ! y =
        take (j * ts) (img ! y) @ map (\<lambda>x. broadcast_px tile (y mod ts) x) [0..<ts]
          @ drop ((j + 1) * ts) (img ! y)"
      using rng assms(5) len by (simp add: put_block_def ym)
    have jw: "j * ts \<le> w" using assms(2) by simp
    show ?thesis
    proof (cases "x div ts = j")
      case xj: True
      then have xr: "j * ts \<le> x \<and> x < (j + 1) * ts"
        using block_index [OF assms(4,6)] by simp
      have xm: "x - j * ts = x mod ts"
        using xj by (metis minus_div_mult_eq_mod)
      have "put_block img i j ts tile ! y ! x = broadcast_px tile (y mod ts) (x mod ts)"
        using xr jw row assms(4) by (simp add: r nth_append xm)
      also have "\<dots> = tile ! (y mod ts) ! (x mod ts)"
        using assms(3) by (rule broadcast_px_full) (rule mod_less_divisor [OF assms(4)])+
      finally show ?thesis using yi xj by simp
    next
      case xj: False
      then have xr: "\<not> (j * ts \<le> x \<and> x < (j + 1) * ts)"
        using block_index [OF assms(4,6)] by simp
      show ?thesis
      proof (cases "x < j * ts")
        case True
        then show ?thesis using xj jw row by (simp add: r nth_append)
      next
        case False
        with xr have ge: "(j + 1) * ts \<le> x" by simp
        then have "\<not> x < j * ts" "\<not> x - j * ts < ts" by auto
        moreover have "(j + 1) * ts + (x - j * ts - ts) = x"
          using ge by (simp add: algebra_simps)
        ultimately show ?thesis using xj jw row assms(6) by (simp add: r nth_append)
      qed
    qed
  qed
qed


lemma grid_index_bound:
  fixes i j rn cn :: nat
  assumes "i < rn" and "j < cn"
  shows "i * cn + j < rn * cn"
proof -
  have "i * cn + j < i * cn + cn" using assms(2) by simp
  also have "\<dots> = Suc i * cn" by simp
  also have "\<dots> \<le> rn * cn" using assms(1) by (intro mult_le_mono1) simp
  finally show ?thesis .
qed

lemma place_tiles_pixels:
  assumes "0 < ts" and "is_array h w img"
    and "\<And>i j. (i, j) \<in> set ps \<Longrightarrow>
           i * cn + j < length tiles \<and> (j + 1) * ts \<le> w \<and>
           (\<exists>t. tiles ! (i * cn + j) = Some t \<and> is_array ts ts t)"
  shows "\<exists>out. place_tiles tiles ts cn ps img = Inr out \<and> is_array h w out \<and>
           (\<forall>y<h. \<forall>x<w. out ! y ! x =
              (if (y div ts, x div ts) \<in> set ps
               then the (tiles ! (y div ts * cn + x div ts)) ! (y mod ts) ! (x mod ts)
               else img ! y ! x))"
  using assms(2,3)
proof (induction ps arbitrary: img)
  case Nil
  then show ?case by simp
next
  case (Cons p ps)
  obtain i j where p: "p = (i, j)" by (cases p)
  from Cons.prems(2) [of i j] p obtain t where t:
    "i * cn + j < length tiles" "(j + 1) * ts \<le> w"
    "tiles ! (i * cn + j) = Some t" "is_array ts ts t"
    by auto
  let ?img1 = "put_block img i j ts t"
  have arr1: "is_array h w ?img1"
    using Cons.prems(1) t(2) by (rule is_array_put_block)
  have rest: "i * cn + j < length tiles \<and> (j + 1) * ts \<le> w \<and>
      (\<exists>t. tiles ! (i * cn + j) = Some t \<and> is_array ts ts t)"
    if "(i, j) \<in> set ps" for i j
    using Cons.prems(2) [of i j] that by simp
  from Cons.IH [OF arr1 rest] obtain out where out:
    "place_tiles tiles ts cn ps ?img1 = Inr out" "is_array h w out"
    "\<forall>y<h. \<forall>x<w. out ! y ! x =
       (if (y div ts, x div ts) \<in> set ps
        then the (tiles ! (y div ts * cn + x div ts)) ! (y mod ts) ! (x mod ts)
        else ?img1 ! y ! x)"
    by blast
  have run: "place_tiles tiles ts cn (p # ps) img = Inr out"
    using t out(1) by (simp add: p set_block_def broadcastable_full)
  have px: "out ! y ! x =
       (if (y div ts, x div ts) \<in> set (p # ps)
        then the (tiles ! (y div ts * cn + x div ts)) ! (y mod ts) ! (x mod ts)
        else img ! y ! x)" if "y < h" "x < w" for y x
  proof -
    have one: "?img1 ! y ! x =
        (if y div ts = i \<and> x div ts = j then t ! (y mod ts) ! (x mod ts) else img ! y ! x)"
      using Cons.prems(1) t(2,4) assms(1) that by (rule put_block_nth)
    show ?thesis
      using out(3) that one t(3) by (auto simp: p)
  qed
  from run out(2) px show ?case by blast
qed

lemma stitch_tiles_pixels:
  assumes "0 < ts" and "0 < rn * cn" and "rn * cn \<le> length tiles"
    and "\<And>k. k < rn * cn \<Longrightarrow> \<exists>t. tiles ! k = Some t \<and> is_array ts ts t"
  shows "\<exists>out. stitch_tiles tiles ts rn cn = Inr out \<and> is_array (ts * rn) (ts * cn) out \<and>
           (\<forall>y<ts * rn. \<forall>x<ts * cn. out ! y ! x =
              the (tiles ! (y div ts * cn + x div ts)) ! (y mod ts) ! (x mod ts))"
proof -
  let ?ps = "List.product [0..<rn] [0..<cn]"
  have first: "\<exists>t rest. tiles = Some t # rest"
  proof -
    from assms(4) [of 0] assms(2) obtain t where "tiles ! 0 = Some t" by auto
    moreover have "tiles \<noteq> []" using assms(2,3) by auto
    ultimately show ?thesis by (cases tiles) auto
  qed
  have cond: "\<And>i j. (i, j) \<in> set ?ps \<Longrightarrow>
      i * cn + j < length tiles \<and> (j + 1) * ts \<le> ts * cn \<and>
      (\<exists>t. tiles ! (i * cn + j) = Some t \<and> is_array ts ts t)"
  proof -
    fix i j assume "(i, j) \<in> set ?ps"
    then have ij: "i < rn" "j < cn" by simp_all
    then have k: "i * cn + j < rn * cn" by (rule grid_index_bound)
    have "(j + 1) * ts \<le> cn * ts" using ij(2) by (intro mult_le_mono1) simp
    then have "(j + 1) * ts \<le> ts * cn" by (simp add: mult.commute)
    with k assms(3) assms(4) [OF k]
    show "i * cn + j < length tiles \<and> (j + 1) * ts \<le> ts * cn \<and>
      (\<exists>t. tiles ! (i * cn + j) = Some t \<and> is_array ts ts t)"
      by simp
  qed
  from place_tiles_pixels [OF assms(1) is_array_zeros cond]
  obtain out where out:
    "place_tiles tiles ts cn ?ps (zeros (ts * rn) (ts * cn)) = Inr out"
    "is_array (ts * rn) (ts * cn) out"
    "\<forall>y<ts * rn. \<forall>x<ts * cn. out ! y ! x =
       (if (y div ts, x div ts) \<in> set ?ps
        then the (tiles ! (y div ts * cn + x div ts)) ! (y mod ts) ! (x mod ts)
        else zeros (ts * rn) (ts * cn) ! y ! x)"
    by blast
  have mem: "(y div ts, x div ts) \<in> set ?ps" if "y < ts * rn" "x < ts * cn" for y x
    using that assms(1) by (simp add: div_less_iff_less_mult mult.commute)
  have "stitch_tiles tiles ts rn cn = Inr out"
    using first out(1) by (auto simp: stitch_tiles_def)
  with out(2,3) mem show ?thesis by auto
qed

lemma is_array_block:
  assumes "is_array h w img" and "(i + 1) * ts \<le> h" and "(j + 1) * ts \<le> w"
  shows "is_array ts ts (block img i j ts)"
proof -
  have "length img = h" "list_all (\<lambda>row. length row = w) img"
    using assms(1) by (simp_all add: is_array_def)
  then show ?thesis
    using assms(2,3)
    by (auto simp: is_array_def block_def list_all_iff dest!: in_set_takeD in_set_dropD)
qed

lemma block_nth:
  assumes "is_array h w img" and "(i + 1) * ts \<le> h" and "(j + 1) * ts \<le> w"
    and "y < ts" and "x < ts"
  shows "block img i j ts ! y ! x = img ! (i * ts + y) ! (j * ts + x)"
proof -
  have len: "length img = h" using assms(1) by (rule is_array_length)
  have iy: "i * ts + y < h" using assms(2,4) by simp
  then have row: "length (img ! (i * ts + y)) = w" using assms(1) by (intro is_array_nth)
  show ?thesis
    using assms(2-5) len iy row by (simp add: block_def)
qed

lemma stitched_block:
  assumes "0 < ts" and "k < rn * cn" and "is_array ts ts t"
    and "is_array (ts * rn) (ts * cn) out"
    and "\<forall>y<ts * rn. \<forall>x<ts * cn. out ! y ! x =
           the (tiles ! (y div ts * cn + x div ts)) ! (y mod ts) ! (x mod ts)"
    and "tiles ! k = Some t"
  shows "block out (k div cn) (k mod cn) ts = t"
proof -
  have cn: "0 < cn" using assms(2) by (cases cn) simp_all
  let ?i = "k div cn" and ?j = "k mod cn"
  have i: "?i < rn" using assms(2) cn by (simp add: div_less_iff_less_mult)
  have j: "?j < cn" using cn by simp
  have ih: "(?i + 1) * ts \<le> ts * rn"
  proof -
    have "(?i + 1) * ts \<le> rn * ts" using i by (intro mult_le_mono1) simp
    then show ?thesis by (simp add: mult.commute)
  qed
  have jw: "(?j + 1) * ts \<le> ts * cn"
  proof -
    have "(?j + 1) * ts \<le> cn * ts" using j by (intro mult_le_mono1) simp
    then show ?thesis by (simp add: mult.commute)
  qed
  have arr: "is_array ts ts (block out ?i ?j ts)"
    using assms(4) ih jw by (rule is_array_block)
  show ?thesis
  proof (rule array_eqI [OF arr assms(3)])
    fix y x assume yx: "y < ts" "x < ts"
    have yy: "?i * ts + y < ts * rn" using ih yx(1) by simp
    have xx: "?j * ts + x < ts * cn" using jw yx(2) by simp
    have d: "(?i * ts + y) div ts = ?i" "(?i * ts + y) mod ts = y"
      "(?j * ts + x) div ts = ?j" "(?j * ts + x) mod ts = x"
      using yx assms(1) by simp_all
    have "block out ?i ?j ts ! y ! x = out ! (?i * ts + y) ! (?j * ts + x)"
      using assms(4) ih jw yx by (rule block_nth)
    also have "\<dots> = the (tiles ! (?i * cn + ?j)) ! y ! x"
      using assms(5) yy xx yx by (simp add: d)
    also have "?i * cn + ?j = k" by simp
    finally show "block out ?i ?j ts ! y ! x = t ! y ! x"
      using assms(6) by simp
  qed
qed

text \<open>
  C1, as the code has it.  For rows, cols and tileSize above 0 and a list of at least
  \<open>rows * cols\<close> tiles, each \<open>tileSize\<close> by \<open>tileSize\<close>, \<open>stitch_tiles\<close> returns an
  image of exactly \<open>rows * tileSize\<close> by \<open>cols * tileSize\<close> pixels in which, for every
  linear index \<open>k < rows * cols\<close>, the block at grid position \<open>(k div cols, k mod cols)\<close>
  is tile \<open>k\<close>.
\<close>

theorem stitch_tiles_places_each_tile:
  assumes "0 < ts" and "0 < rn" and "0 < cn" and "rn * cn \<le> length tiles"
    and "\<forall>k<rn * cn. is_array ts ts (tiles ! k)"
  shows "\<exists>out. stitch_tiles (map Some tiles) ts rn cn = Inr out
           \<and> is_array (rn * ts) (cn * ts) out
           \<and> (\<forall>k<rn * cn. block out (k div cn) (k mod cn) ts = tiles ! k)"
proof -
  have pos: "0 < rn * cn" using assms(2,3) by simp
  have len: "rn * cn \<le> length (map Some tiles)" using assms(4) by simp
  have ok: "\<exists>t. map Some tiles ! k = Some t \<and> is_array ts ts t" if "k < rn * cn" for k
    using that assms(4,5) by simp
  from stitch_tiles_pixels [OF assms(1) pos len ok] obtain out where out:
    "stitch_tiles (map Some tiles) ts rn cn = Inr out"
    "is_array (ts * rn) (ts * cn) out"
    "\<forall>y<ts * rn. \<forall>x<ts * cn. out ! y ! x =
       the (map Some tiles ! (y div ts * cn + x div ts)) ! (y mod ts) ! (x mod ts)"
    by blast
  have "block out (k div cn) (k mod cn) ts = tiles ! k" if k: "k < rn * cn" for k
  proof (rule stitched_block [OF assms(1) k _ out(2,3)])
    show "is_array ts ts (tiles ! k)" using assms(5) k by simp
    show "map Some tiles ! k = Some (tiles ! k)" using assms(4) k by simp
  qed
  with out(1,2) show ?thesis by (auto simp: mult.commute)
qed

theorem stitch_tiles_places_each_tile_witness:
  "\<exists>out. stitch_tiles (map Some [[[1, 2], [3, 4]], [[5, 6], [7, 8]]]) 2 1 2 = Inr out
      \<and> is_array (1 * 2) (2 * 2) out
      \<and> (\<forall>k<1 * 2. block out (k div 2) (k mod 2) 2 = [[[1, 2], [3, 4]], [[5, 6], [7, 8]]] ! k)"
proof -
  let ?tiles = "[[[1, 2], [3, 4]], [[5, 6], [7, 8 :: uint8]]]"
  have h1: "(0::nat) < 2" and h2: "(0::nat) < 1" by simp_all
  have h4: "1 * 2 \<le> length ?tiles" by simp
  have h5: "\<forall>k<1 * 2. is_array 2 2 (?tiles ! k)"
    by (simp add: is_array_def less_Suc_eq numeral_2_eq_2)
  show ?thesis
    using stitch_tiles_places_each_tile [where ts = 2 and rn = 1 and cn = 2 and tiles = ?tiles,
        OF h1 h2 h1 h4 h5] .
qed

text \<open>
  The claim as stated fails: with three tiles for a grid of two rows and two columns,
  the read of \<open>tiles[3]\<close> raises \<open>IndexError\<close> and no image is returned.
\<close>

theorem stitch_tiles_short_list_raises:
  "stitch_tiles (map Some [[[1]], [[2]], [[3]]]) 1 2 2 = Inl IndexError"
  by (simp add: stitch_tiles_def zeros_def set_block_def put_block_def broadcastable_def
      upt_rec numeral_2_eq_2)

section \<open>Stitching and cropping a tile directory: proofs\<close>

lemma list_set_in_range:
  "k < length xs \<Longrightarrow> list_set xs (int k) v = Inr (xs[k := v])"
  by (simp add: list_set_def Let_def)

lemma load_tiles_numbered:
  assumes "\<forall>f\<in>set fs. tile_of f = Inr (tile f)"
    and "map (\<lambda>f. py_int (stem f)) fs = map (\<lambda>k. Inr (int k)) [a..<a + length fs]"
    and "a + length fs \<le> length tiles"
  shows "\<exists>out. load_tiles tile_of fs tiles = Inr out \<and> length out = length tiles \<and>
           (\<forall>i<length tiles. out ! i =
              (if a \<le> i \<and> i < a + length fs
               then Some (tile (fs ! (i - a))) else tiles ! i))"
  using assms
proof (induction fs arbitrary: a tiles)
  case Nil
  then show ?case by auto
next
  case (Cons f fs)
  let ?v = "Some (tile f)"
  have upt: "[a..<a + length (f # fs)] = a # [Suc a..<Suc a + length fs]"
  proof -
    have e: "a + length (f # fs) = Suc a + length fs" by simp
    show ?thesis unfolding e by (rule upt_conv_Cons) simp
  qed
  have st: "py_int (stem f) = Inr (int a)"
    and rest: "map (\<lambda>f. py_int (stem f)) fs = map (\<lambda>k. Inr (int k)) [Suc a..<Suc a + length fs]"
    using Cons.prems(2) unfolding upt by simp_all
  have rs: "tile_of f = Inr (tile f)"
    using Cons.prems(1) by simp
  have a: "a < length tiles" using Cons.prems(3) by simp
  have ls: "list_set tiles (int a) ?v = Inr (tiles[a := ?v])"
    using a by (rule list_set_in_range)
  have ok: "\<forall>f\<in>set fs. tile_of f = Inr (tile f)"
    using Cons.prems(1) by simp
  have bound: "Suc a + length fs \<le> length (tiles[a := ?v])"
    using Cons.prems(3) by simp
  from Cons.IH [OF ok rest bound] obtain out where out:
    "load_tiles tile_of fs (tiles[a := ?v]) = Inr out" "length out = length tiles"
    "\<forall>i<length tiles. out ! i =
       (if Suc a \<le> i \<and> i < Suc a + length fs
        then Some (tile (fs ! (i - Suc a))) else tiles[a := ?v] ! i)"
    by auto
  have run: "load_tiles tile_of (f # fs) tiles = Inr out"
    by (simp add: st rs ls out(1))
  have "out ! i =
       (if a \<le> i \<and> i < a + length (f # fs)
        then Some (tile ((f # fs) ! (i - a))) else tiles ! i)"
    if "i < length tiles" for i
  proof (cases "i = a")
    case True
    then show ?thesis using out(3) that by simp
  next
    case False
    then show ?thesis
      using out(3) that by (cases "a < i") (auto simp: nth_Cons' Suc_diff_Suc)
  qed
  with run out(2) show ?case by blast
qed

lemma load_tiles_all:
  assumes "\<forall>f\<in>set fs. tile_of f = Inr (tile f)"
    and "map (\<lambda>f. py_int (stem f)) fs = map (\<lambda>k. Inr (int k)) [0..<length fs]"
  shows "load_tiles tile_of fs (replicate (length fs) None) = Inr (map (\<lambda>f. Some (tile f)) fs)"
proof -
  have "map (\<lambda>f. py_int (stem f)) fs = map (\<lambda>k. Inr (int k)) [0..<0 + length fs]"
    using assms(2) by simp
  moreover have "0 + length fs \<le> length (replicate (length fs) (None :: uint8 array option))"
    by simp
  ultimately obtain out where out:
    "load_tiles tile_of fs (replicate (length fs) None) = Inr out"
    "length out = length fs"
    "\<forall>i<length fs. out ! i = Some (tile (fs ! i))"
    using load_tiles_numbered [OF assms(1), of 0 "replicate (length fs) None"]
    by auto
  have "out = map (\<lambda>f. Some (tile f)) fs"
    using out(2,3) by (intro nth_equalityI) simp_all
  with out(1) show ?thesis by simp
qed

lemma center_crop_fits:
  assumes "is_array h w img" and "height \<le> h" and "width \<le> w"
  shows "\<exists>out. center_crop (h, w) height width img = Inr out \<and> is_array height width out"
proof -
  have "length img = h" "list_all (\<lambda>row. length row = w) img"
    using assms(1) by (simp_all add: is_array_def)
  then have "is_array height width
      (map (\<lambda>row. take width (drop ((w - width) div 2) row))
         (take height (drop ((h - height) div 2) img)))"
    using assms(2,3)
    by (auto simp: is_array_def list_all_iff dest!: in_set_takeD in_set_dropD)
  then show ?thesis
    using assms(2,3) by (simp add: center_crop_def Let_def)
qed

text \<open>
  C2, as the code has it.  The directory holds more tile files than the \<open>rows * cols\<close>
  of the metadata; the files are numbered from 0 without gaps and each is a non-empty
  image.  In \<open>am.segment.preprocess\<close>, where \<open>cv2.resize\<close> brings every tile to the
  tile size and the crop size is within the stitched size, the mismatch is signalled by
  the logged warning alone and a stitched and cropped image is still produced: it is built
  from the resized tiles \<open>0 .. rows * cols - 1\<close>, the surplus tiles are ignored, and
  every grid position holds its tile.  In \<open>am_segm.preprocess\<close> the mismatch is
  signalled by the printed line alone, and the tiles go as they were read to
  \<open>stitch_tiles\<close> of \<open>am_segm.image_utils\<close>, whose exception is passed on and whose
  image is cropped.
\<close>

theorem surplus_tiles_logged_and_stitched:
  assumes "0 < ts" and "0 < tile_rows meta" and "0 < tile_cols meta"
    and "\<forall>f\<in>set files. pixels f \<noteq> [] \<and> hd (pixels f) \<noteq> []
           \<and> is_array ts ts (resample (pixels f) ts)"
    and "map (\<lambda>f. py_int (stem f)) files = map (\<lambda>k. Inr (int k)) [0..<length files]"
    and "tile_rows meta * tile_cols meta < length files"
    and "image_h meta \<le> ts * tile_rows meta" and "image_w meta \<le> ts * tile_cols meta"
  shows "fst (stitch_and_crop_tiles resample files ts meta) = [TileCountMismatch (length files)]
       \<and> (\<exists>stitched img.
             stitch_tiles (map (\<lambda>f. Some (resample (pixels f) ts)) files) ts
               (tile_rows meta) (tile_cols meta) = Inr stitched
           \<and> (\<forall>k<tile_rows meta * tile_cols meta.
                 block stitched (k div tile_cols meta) (k mod tile_cols meta) ts =
                   resample (pixels (files ! k)) ts)
           \<and> center_crop (ts * tile_rows meta, ts * tile_cols meta)
                (image_h meta) (image_w meta) stitched = Inr img
           \<and> snd (stitch_and_crop_tiles resample files ts meta) = Inr img
           \<and> is_array (image_h meta) (image_w meta) img)
       \<and> am_segm_stitch_and_crop_tiles image_utils_stitch_tiles files ts meta =
           ([PrintedTileCountMismatch (length files)],
            case image_utils_stitch_tiles (map (\<lambda>f. Some (pixels f)) files) ts
                   (tile_rows meta) (tile_cols meta) of
              Inl e \<Rightarrow> Inl e
            | Inr stitched \<Rightarrow>
                center_crop (fst stitched) (image_h meta) (image_w meta) (snd stitched))"
proof -
  let ?rn = "tile_rows meta" and ?cn = "tile_cols meta"
  let ?tiles = "map (\<lambda>f. Some (resample (pixels f) ts)) files"
  have read: "\<forall>f\<in>set files.
      cv2_resize resample (pixels f) ts = Inr (resample (pixels f) ts)"
    using assms(1,4) by (simp add: cv2_resize_def)
  have loaded: "load_tiles (\<lambda>f. cv2_resize resample (pixels f) ts) files
      (replicate (length files) None) = Inr ?tiles"
    using read assms(5) by (rule load_tiles_all)
  have pos: "0 < ?rn * ?cn" using assms(2,3) by simp
  have len: "?rn * ?cn \<le> length ?tiles" using assms(6) by simp
  have sized: "is_array ts ts (resample (pixels (files ! k)) ts)" if "k < ?rn * ?cn" for k
    using that assms(4,6) by simp
  have ok: "\<exists>t. ?tiles ! k = Some t \<and> is_array ts ts t" if "k < ?rn * ?cn" for k
    using that assms(6) sized by simp
  from stitch_tiles_pixels [OF assms(1) pos len ok] obtain stitched where st:
    "stitch_tiles ?tiles ts ?rn ?cn = Inr stitched"
    "is_array (ts * ?rn) (ts * ?cn) stitched"
    "\<forall>y<ts * ?rn. \<forall>x<ts * ?cn. stitched ! y ! x =
       the (?tiles ! (y div ts * ?cn + x div ts)) ! (y mod ts) ! (x mod ts)"
    by blast
  from center_crop_fits [OF st(2) assms(7,8)] obtain img where img:
    "center_crop (ts * ?rn, ts * ?cn) (image_h meta) (image_w meta) stitched = Inr img"
    "is_array (image_h meta) (image_w meta) img"
    by blast
  have blocks: "block stitched (k div ?cn) (k mod ?cn) ts = resample (pixels (files ! k)) ts"
    if k: "k < ?rn * ?cn" for k
  proof (rule stitched_block [OF assms(1) k sized [OF k] st(2,3)])
    show "?tiles ! k = Some (resample (pixels (files ! k)) ts)"
      using k assms(6) by simp
  qed
  have warn: "fst (stitch_and_crop_tiles resample files ts meta) =
      [TileCountMismatch (length files)]"
    using assms(6) by (simp add: stitch_and_crop_tiles_def Let_def)
  have res: "snd (stitch_and_crop_tiles resample files ts meta) = Inr img"
    by (simp add: stitch_and_crop_tiles_def Let_def loaded st(1) img(1))
  have as_read: "load_tiles (\<lambda>f. Inr (pixels f)) files (replicate (length files) None) =
      Inr (map (\<lambda>f. Some (pixels f)) files)"
    using assms(5) by (intro load_tiles_all) simp_all
  have legacy: "am_segm_stitch_and_crop_tiles image_utils_stitch_tiles files ts meta =
      ([PrintedTileCountMismatch (length files)],
       case image_utils_stitch_tiles (map (\<lambda>f. Some (pixels f)) files) ts ?rn ?cn of
         Inl e \<Rightarrow> Inl e
       | Inr stitched \<Rightarrow>
           center_crop (fst stitched) (image_h meta) (image_w meta) (snd stitched))"
    using assms(6) by (simp add: am_segm_stitch_and_crop_tiles_def Let_def as_read)
  from warn st(1) blocks img res legacy show ?thesis by blast
qed

text \<open>
  In the scenario the tiles have the tile size already, and \<open>cv2.resize\<close> to the
  size of the source returns the pixels of the source.
\<close>

theorem surplus_tiles_logged_and_stitched_witness:
  "stitch_and_crop_tiles (\<lambda>src ts. src)
     [\<lparr>stem = ''0000'', pixels = [[1, 2], [3, 4]]\<rparr>,
      \<lparr>stem = ''0001'', pixels = [[5, 6], [7, 8]]\<rparr>,
      \<lparr>stem = ''0002'', pixels = [[9, 9], [9, 9]]\<rparr>] 2
     \<lparr>image_h = 2, image_w = 3, tile_rows = 1, tile_cols = 2\<rparr>
   = ([TileCountMismatch 3], Inr [[1, 2, 5], [3, 4, 7]])"
proof -
  let ?files = "[\<lparr>stem = ''0000'', pixels = [[1, 2], [3, 4 :: uint8]]\<rparr>,
                 \<lparr>stem = ''0001'', pixels = [[5, 6], [7, 8]]\<rparr>,
                 \<lparr>stem = ''0002'', pixels = [[9, 9], [9, 9]]\<rparr>]"
  let ?meta = "\<lparr>image_h = 2, image_w = 3, tile_rows = 1, tile_cols = 2\<rparr>"
  let ?same = "\<lambda>(src :: uint8 array) (ts :: nat). src"
  have h1: "(0::nat) < 2" by simp
  have h2: "0 < tile_rows ?meta" and h3: "0 < tile_cols ?meta" by simp_all
  have h4: "\<forall>f\<in>set ?files. pixels f \<noteq> [] \<and> hd (pixels f) \<noteq> []
      \<and> is_array 2 2 (?same (pixels f) 2)"
    by (simp add: is_array_def)
  have h5: "map (\<lambda>f. py_int (stem f)) ?files = map (\<lambda>k. Inr (int k)) [0..<length ?files]"
    by (simp add: py_int_def strip_def is_space_def digit_of_def Let_def upt_rec)
  have h6: "tile_rows ?meta * tile_cols ?meta < length ?files" by simp
  have h7: "image_h ?meta \<le> 2 * tile_rows ?meta" and h8: "image_w ?meta \<le> 2 * tile_cols ?meta"
    by simp_all
  note t = surplus_tiles_logged_and_stitched
    [where ts = 2 and meta = ?meta and files = ?files and resample = ?same,
      OF h1 h2 h3 h4 h5 h6 h7 h8]
  have w: "fst (stitch_and_crop_tiles ?same ?files 2 ?meta) = [TileCountMismatch 3]"
    using t by simp
  have "snd (stitch_and_crop_tiles ?same ?files 2 ?meta) = Inr [[1, 2, 5], [3, 4, 7]]"
    by (simp add: stitch_and_crop_tiles_def Let_def py_int_def strip_def is_space_def
        digit_of_def cv2_resize_def list_set_def stitch_tiles_def zeros_def set_block_def
        put_block_def broadcastable_def broadcast_px_def center_crop_def upt_rec
        numeral_2_eq_2)
  with w show ?thesis by (simp add: prod_eq_iff)
qed

text \<open>
  The claim as stated fails: with three tile files, each of the tile size, for a grid of
  two rows and two columns the warning is logged, and then the read of \<open>tiles[3]\<close>
  raises \<open>IndexError\<close>; no image is produced and no position is filled with zeros.
\<close>

theorem missing_tile_raises:
  "stitch_and_crop_tiles (\<lambda>src ts. src)
     [\<lparr>stem = ''0000'', pixels = [[1]]\<rparr>,
      \<lparr>stem = ''0001'', pixels = [[2]]\<rparr>,
      \<lparr>stem = ''0002'', pixels = [[3]]\<rparr>] 1
     \<lparr>image_h = 2, image_w = 2, tile_rows = 2, tile_cols = 2\<rparr>
   = ([TileCountMismatch 3], Inl IndexError)"
  by (simp add: stitch_and_crop_tiles_def Let_def py_int_def strip_def is_space_def
      digit_of_def cv2_resize_def list_set_def stitch_tiles_def zeros_def set_block_def
      put_block_def broadcastable_def broadcast_px_def upt_rec numeral_2_eq_2)
section \<open>The metadata record: proofs\<close>

text \<open>
  C7, as the code has it.  The record that \<open>slice_to_tiles\<close> of \<open>am.segment.preprocess\<close>
  persists conforms to the schema: it has the keys \<open>orig_image\<close>, \<open>image\<close> and
  \<open>tile\<close>, with integer \<open>h\<close> and \<open>w\<close> in the first two and integer \<open>rows\<close>, \<open>cols\<close>
  and \<open>size\<close> in the third.  The record that \<open>slice_to_tiles\<close> of
  \<open>am_segm.preprocess\<close> persists has the keys \<open>image\<close> and \<open>tile\<close> only, with the
  same integer fields.
\<close>

theorem persisted_meta_schema:
  "conforms_meta_schema (slice_to_tiles_meta resize_shape grid shape tile_size)
   \<and> keys (slice_to_tiles_meta resize_shape grid shape tile_size) =
       [''orig_image'', ''image'', ''tile'']
   \<and> keys (am_segm_slice_to_tiles_meta resize_shape grid shape) = [''image'', ''tile'']
   \<and> has_size (am_segm_slice_to_tiles_meta resize_shape grid shape) ''image''
   \<and> has_tile (am_segm_slice_to_tiles_meta resize_shape grid shape)"
  by (simp add: slice_to_tiles_meta_def am_segm_slice_to_tiles_meta_def Let_def
      conforms_meta_schema_def has_size_def has_tile_def int_member_def)

text \<open>
  The claim as stated fails: the record that the producer of \<open>am_segm.preprocess\<close>
  persists for an image of 600 by 800 pixels has no \<open>orig_image\<close> entry.
\<close>

theorem am_segm_meta_lacks_orig_image:
  "\<not> conforms_meta_schema (am_segm_slice_to_tiles_meta scaled_shape grid_for (600, 800))
   \<and> am_segm_slice_to_tiles_meta scaled_shape grid_for (600, 800) =
       JObj [(''image'', JObj [(''h'', JInt 600), (''w'', JInt 800)]),
             (''tile'', JObj [(''rows'', JInt 2), (''cols'', JInt 2), (''size'', JInt 512)])]"
  by (simp add: am_segm_slice_to_tiles_meta_def Let_def grid_for_def
      conforms_meta_schema_def has_size_def)


end
